theory Spec2Isabelle
  imports Complex_Main
begin

section \<open>JavaScript values the benchmark exchanges with its libraries\<close>

text \<open>
  The benchmark of \<^verbatim>\<open>src/App.tsx\<close> (and of its second version,
  \<^verbatim>\<open>src/unnamed/part_000\<close>) builds an array of objects, serialises it with
  \<^verbatim>\<open>JSON.stringify\<close>, stores the text in two key-value stores and parses what it reads
  back with \<^verbatim>\<open>JSON.parse\<close>. The JSON values are modelled by a datatype. An object is an
  association list in insertion order, as the properties of a JavaScript object with string
  keys are. Numbers are the integers only: the numbers of the payload are array indices.
\<close>

datatype json =
    JNull
  | JBool bool
  | JNum int
  | JStr string
  | JArr "json list"
  | JObj "(string \<times> json) list"

text \<open>
  \<open>SyntaxError\<close> is the exception of \<^verbatim>\<open>JSON.parse\<close>. \<open>OutOfFuel\<close> and
  \<open>NotModelled\<close> are not JavaScript errors. \<open>NotModelled\<close> marks the inputs outside
  the model of the parser (a number with a fraction or an exponent, a \<^verbatim>\<open>\u\<close> escape
  above \<^verbatim>\<open>00ff\<close>), so that none of them is taken for a result of the program.
  \<open>OutOfFuel\<close> is the end of the recursion bound of the parser; \<open>JSON_parse\<close> never
  returns it (lemma \<open>JSON_parse_never_out_of_fuel\<close>).
\<close>

datatype js_error = SyntaxError | OutOfFuel | NotModelled

text \<open>What a store hands to \<^verbatim>\<open>JSON.parse\<close>: a string, \<^verbatim>\<open>null\<close> or \<^verbatim>\<open>undefined\<close>.\<close>

datatype js_value = Undefined | Null | String string

abbreviation DQUOTE :: char where "DQUOTE \<equiv> CHR 0x22"
abbreviation BACKSLASH :: char where "BACKSLASH \<equiv> CHR 0x5C"

subsection \<open>Number to string\<close>

text \<open>
  The decimal digits of an integer, as \<^verbatim>\<open>Number.prototype.toString\<close> and the template
  literal \<^verbatim>\<open>`Data ${i}`\<close> produce them for an integer below \<open>10\<^sup>2\<^sup>1\<close>.
\<close>

definition digit_char :: "nat \<Rightarrow> char" where
  "digit_char d = char_of (48 + d)"

function digits_of :: "nat \<Rightarrow> string" where
  "digits_of n =
     (if n < 10 then [digit_char n] else digits_of (n div 10) @ [digit_char (n mod 10)])"
  by pat_completeness auto
termination
  by (relation "measure (\<lambda>n. n)") auto

definition Number_toString :: "int \<Rightarrow> string" where
  "Number_toString i =
     (if i < 0 then CHR ''-'' # digits_of (nat (- i)) else digits_of (nat i))"

subsection \<open>\<^verbatim>\<open>JSON.stringify\<close>\<close>

definition hex_char :: "nat \<Rightarrow> char" where
  "hex_char d = (if d < 10 then char_of (48 + d) else char_of (87 + d))"

text \<open>The escapes of \<^verbatim>\<open>QuoteJSONString\<close> (ECMA-262), on code units below 256.\<close>

definition quote_char :: "char \<Rightarrow> string" where
  "quote_char c =
     (if c = CHR 0x08 then [BACKSLASH, CHR ''b'']
      else if c = CHR 0x09 then [BACKSLASH, CHR ''t'']
      else if c = CHR 0x0A then [BACKSLASH, CHR ''n'']
      else if c = CHR 0x0C then [BACKSLASH, CHR ''f'']
      else if c = CHR 0x0D then [BACKSLASH, CHR ''r'']
      else if c = DQUOTE then [BACKSLASH, DQUOTE]
      else if c = BACKSLASH then [BACKSLASH, BACKSLASH]
      else if (of_char c :: nat) < 0x20
        then [BACKSLASH, CHR ''u'', CHR ''0'', CHR ''0'',
              hex_char (of_char c div 16), hex_char (of_char c mod 16)]
      else [c])"

definition QuoteJSONString :: "string \<Rightarrow> string" where
  "QuoteJSONString s = DQUOTE # concat (map quote_char s) @ [DQUOTE]"

text \<open>
  \<^verbatim>\<open>JSON.stringify(value)\<close> with no replacer and no indentation: no white space, the
  elements and members separated by commas.
\<close>

fun JSON_stringify :: "json \<Rightarrow> string"
  and stringify_elements :: "json list \<Rightarrow> string"
  and stringify_members :: "(string \<times> json) list \<Rightarrow> string" where
  "JSON_stringify JNull = ''null''"
| "JSON_stringify (JBool b) = (if b then ''true'' else ''false'')"
| "JSON_stringify (JNum n) = Number_toString n"
| "JSON_stringify (JStr s) = QuoteJSONString s"
| "JSON_stringify (JArr xs) = CHR ''['' # stringify_elements xs @ '']''"
| "JSON_stringify (JObj kvs) = CHR ''{'' # stringify_members kvs @ ''}''"
| "stringify_elements [] = []"
| "stringify_elements [x] = JSON_stringify x"
| "stringify_elements (x # y # ys) =
     JSON_stringify x @ CHR '','' # stringify_elements (y # ys)"
| "stringify_members [] = []"
| "stringify_members [(k, v)] = QuoteJSONString k @ CHR '':'' # JSON_stringify v"
| "stringify_members ((k, v) # m # ms) =
     QuoteJSONString k @ CHR '':'' # JSON_stringify v @ CHR '','' # stringify_members (m # ms)"

subsection \<open>\<^verbatim>\<open>JSON.parse\<close>\<close>

definition is_ws :: "char \<Rightarrow> bool" where
  "is_ws c = (c = CHR 0x20 \<or> c = CHR 0x09 \<or> c = CHR 0x0A \<or> c = CHR 0x0D)"

definition skip_ws :: "string \<Rightarrow> string" where
  "skip_ws s = dropWhile is_ws s"

definition is_digit :: "char \<Rightarrow> bool" where
  "is_digit c = (48 \<le> (of_char c :: nat) \<and> (of_char c :: nat) \<le> 57)"

definition digit_val :: "char \<Rightarrow> nat" where
  "digit_val c = of_char c - 48"

definition digits_val :: "string \<Rightarrow> nat" where
  "digits_val ds = foldl (\<lambda>a c. 10 * a + digit_val c) 0 ds"

definition hex_val :: "char \<Rightarrow> nat option" where
  "hex_val c =
     (let n = (of_char c :: nat) in
      if 48 \<le> n \<and> n \<le> 57 then Some (n - 48)
      else if 97 \<le> n \<and> n \<le> 102 then Some (n - 87)
      else if 65 \<le> n \<and> n \<le> 70 then Some (n - 55)
      else None)"

fun hex4 :: "string \<Rightarrow> nat option" where
  "hex4 [a, b, c, d] =
     (case (hex_val a, hex_val b, hex_val c, hex_val d) of
        (Some x, Some y, Some z, Some w) \<Rightarrow> Some (((x * 16 + y) * 16 + z) * 16 + w)
      | _ \<Rightarrow> None)"
| "hex4 _ = None"

text \<open>The character that a one-letter escape stands for.\<close>

definition simple_escape :: "char \<Rightarrow> char option" where
  "simple_escape e =
     (if e = DQUOTE then Some DQUOTE
      else if e = BACKSLASH then Some BACKSLASH
      else if e = CHR ''/'' then Some CHR ''/''
      else if e = CHR ''b'' then Some (CHR 0x08)
      else if e = CHR ''f'' then Some (CHR 0x0C)
      else if e = CHR ''n'' then Some (CHR 0x0A)
      else if e = CHR ''r'' then Some (CHR 0x0D)
      else if e = CHR ''t'' then Some (CHR 0x09)
      else None)"

text \<open>
  The characters of a string literal after its opening quote, up to the closing quote:
  the string read and the rest of the input.
\<close>

fun parse_chars :: "string \<Rightarrow> string \<Rightarrow> js_error + (string \<times> string)" where
  "parse_chars acc [] = Inl SyntaxError"
| "parse_chars acc (c # cs) =
     (if c = DQUOTE then Inr (acc, cs)
      else if c = BACKSLASH then
        (case cs of
           [] \<Rightarrow> Inl SyntaxError
         | e # es \<Rightarrow>
             if e = CHR ''u'' then
               (case hex4 (take 4 es) of
                  None \<Rightarrow> Inl SyntaxError
                | Some n \<Rightarrow>
                    if n < 256 then parse_chars (acc @ [char_of n]) (drop 4 es)
                    else Inl NotModelled)
             else
               (case simple_escape e of
                  None \<Rightarrow> Inl SyntaxError
                | Some d \<Rightarrow> parse_chars (acc @ [d]) es))
      else if (of_char c :: nat) < 0x20 then Inl SyntaxError
      else parse_chars (acc @ [c]) cs)"

text \<open>
  A number: an optional minus sign, then \<^verbatim>\<open>0\<close> or a digit from 1 to 9 followed by
  digits. A fraction or an exponent after it is outside the model.
\<close>

definition int_digits :: "string \<Rightarrow> string" where
  "int_digits s =
     (case s of
        [] \<Rightarrow> []
      | d # r \<Rightarrow>
          if \<not> is_digit d then []
          else if d = CHR ''0'' then [d]
          else d # takeWhile is_digit r)"

definition starts_fraction :: "string \<Rightarrow> bool" where
  "starts_fraction s =
     (case s of [] \<Rightarrow> False | c # _ \<Rightarrow> c = CHR ''.'' \<or> c = CHR ''e'' \<or> c = CHR ''E'')"

definition parse_unsigned :: "string \<Rightarrow> js_error + (nat \<times> string)" where
  "parse_unsigned s =
     (let ds = int_digits s; rest = drop (length ds) s
      in if ds = [] then Inl SyntaxError
         else if starts_fraction rest then Inl NotModelled
         else Inr (digits_val ds, rest))"

definition parse_number :: "string \<Rightarrow> js_error + (int \<times> string)" where
  "parse_number s =
     (case s of
        [] \<Rightarrow> Inl SyntaxError
      | c # r \<Rightarrow>
          if c = CHR ''-'' then
            (case parse_unsigned r of
               Inl e \<Rightarrow> Inl e
             | Inr (v, rest) \<Rightarrow> Inr (- int v, rest))
          else
            (case parse_unsigned s of
               Inl e \<Rightarrow> Inl e
             | Inr (v, rest) \<Rightarrow> Inr (int v, rest)))"

text \<open>
  Defining a property of an object being built: a key that is there keeps its place and
  takes the new value, a new key goes to the end.
\<close>

fun set_property :: "string \<Rightarrow> json \<Rightarrow> (string \<times> json) list \<Rightarrow> (string \<times> json) list" where
  "set_property k v [] = [(k, v)]"
| "set_property k v (p # ps) = (if fst p = k then (k, v) # ps else p # set_property k v ps)"

text \<open>
  A value that is neither an array nor an object, at the head of an input without
  leading white space: a literal name, a string or a number.
\<close>

definition parse_scalar :: "string \<Rightarrow> js_error + (json \<times> string)" where
  "parse_scalar s =
     (case s of
        [] \<Rightarrow> Inl SyntaxError
      | c # cs \<Rightarrow>
          if c = CHR ''n'' then
            (if take 3 cs = ''ull'' then Inr (JNull, drop 3 cs) else Inl SyntaxError)
          else if c = CHR ''t'' then
            (if take 3 cs = ''rue'' then Inr (JBool True, drop 3 cs) else Inl SyntaxError)
          else if c = CHR ''f'' then
            (if take 4 cs = ''alse'' then Inr (JBool False, drop 4 cs) else Inl SyntaxError)
          else if c = DQUOTE then
            (case parse_chars [] cs of
               Inl e \<Rightarrow> Inl e
             | Inr (str, r) \<Rightarrow> Inr (JStr str, r))
          else if c = CHR ''-'' \<or> is_digit c then
            (case parse_number s of
               Inl e \<Rightarrow> Inl e
             | Inr (i, r) \<Rightarrow> Inr (JNum i, r))
          else Inl SyntaxError)"

text \<open>
  The recursive descent over the JSON grammar. The first argument bounds the number of
  nested calls; \<open>JSON_parse\<close> below starts it from a bound that grows with the text.
\<close>

fun parse_value :: "nat \<Rightarrow> string \<Rightarrow> js_error + (json \<times> string)"
  and parse_elements :: "nat \<Rightarrow> json list \<Rightarrow> string \<Rightarrow> js_error + (json list \<times> string)"
  and parse_members ::
    "nat \<Rightarrow> (string \<times> json) list \<Rightarrow> string \<Rightarrow> js_error + ((string \<times> json) list \<times> string)" where
  "parse_value 0 s = Inl OutOfFuel"
| "parse_value (Suc n) s =
     (case skip_ws s of
        [] \<Rightarrow> Inl SyntaxError
      | c # cs \<Rightarrow>
          if c = CHR ''['' then
            (case skip_ws cs of
               [] \<Rightarrow> Inl SyntaxError
             | d # ds \<Rightarrow>
                 if d = CHR '']'' then Inr (JArr [], ds)
                 else (case parse_elements n [] cs of
                         Inl e \<Rightarrow> Inl e
                       | Inr (xs, r) \<Rightarrow> Inr (JArr xs, r)))
          else if c = CHR ''{'' then
            (case skip_ws cs of
               [] \<Rightarrow> Inl SyntaxError
             | d # ds \<Rightarrow>
                 if d = CHR ''}'' then Inr (JObj [], ds)
                 else (case parse_members n [] cs of
                         Inl e \<Rightarrow> Inl e
                       | Inr (kvs, r) \<Rightarrow> Inr (JObj kvs, r)))
          else parse_scalar (c # cs))"
| "parse_elements 0 acc s = Inl OutOfFuel"
| "parse_elements (Suc n) acc s =
     (case parse_value n s of
        Inl e \<Rightarrow> Inl e
      | Inr (v, r) \<Rightarrow>
          (case skip_ws r of
             [] \<Rightarrow> Inl SyntaxError
           | c # cs \<Rightarrow>
               if c = CHR '','' then parse_elements n (acc @ [v]) cs
               else if c = CHR '']'' then Inr (acc @ [v], cs)
               else Inl SyntaxError))"
| "parse_members 0 acc s = Inl OutOfFuel"
| "parse_members (Suc n) acc s =
     (case skip_ws s of
        [] \<Rightarrow> Inl SyntaxError
      | q # qs \<Rightarrow>
          if q \<noteq> DQUOTE then Inl SyntaxError
          else
            (case parse_chars [] qs of
               Inl e \<Rightarrow> Inl e
             | Inr (k, r) \<Rightarrow>
                 (case skip_ws r of
                    [] \<Rightarrow> Inl SyntaxError
                  | c # cs \<Rightarrow>
                      if c \<noteq> CHR '':'' then Inl SyntaxError
                      else
                        (case parse_value n cs of
                           Inl e \<Rightarrow> Inl e
                         | Inr (v, r2) \<Rightarrow>
                             (case skip_ws r2 of
                                [] \<Rightarrow> Inl SyntaxError
                              | d # ds \<Rightarrow>
                                  if d = CHR '','' then parse_members n (set_property k v acc) ds
                                  else if d = CHR ''}'' then Inr (set_property k v acc, ds)
                                  else Inl SyntaxError)))))"

text \<open>
  \<^verbatim>\<open>JSON.parse(text)\<close> first converts its argument to a string: \<^verbatim>\<open>null\<close> becomes
  the text \<^verbatim>\<open>null\<close>, which parses, and \<^verbatim>\<open>undefined\<close> the text
  \<^verbatim>\<open>undefined\<close>, which does not.
\<close>

fun ToString :: "js_value \<Rightarrow> string" where
  "ToString Undefined = ''undefined''"
| "ToString Null = ''null''"
| "ToString (String s) = s"

definition JSON_parse :: "js_value \<Rightarrow> js_error + json" where
  "JSON_parse text =
     (let s = ToString text in
      case parse_value (2 * length s + 2) s of
        Inl e \<Rightarrow> Inl e
      | Inr (v, r) \<Rightarrow> if skip_ws r = [] then Inr v else Inl SyntaxError)"


text \<open>
  The values that \<open>JSON_stringify\<close> and \<open>JSON_parse\<close> exchange without loss: no object
  has two members with the same key (no JavaScript object has).
\<close>

fun wf_json :: "json \<Rightarrow> bool"
  and wf_elements :: "json list \<Rightarrow> bool"
  and wf_members :: "(string \<times> json) list \<Rightarrow> bool" where
  "wf_json (JArr xs) = wf_elements xs"
| "wf_json (JObj kvs) = (distinct (map fst kvs) \<and> wf_members kvs)"
| "wf_json _ = True"
| "wf_elements [] = True"
| "wf_elements (x # xs) = (wf_json x \<and> wf_elements xs)"
| "wf_members [] = True"
| "wf_members (kv # kvs) = (wf_json (snd kv) \<and> wf_members kvs)"

text \<open>Auxiliary notions of the proofs about the parser.\<close>

definition num_cont :: "string \<Rightarrow> bool" where
  "num_cont rest =
     (case rest of [] \<Rightarrow> False
      | c # _ \<Rightarrow> is_digit c \<or> c = CHR ''.'' \<or> c = CHR ''e'' \<or> c = CHR ''E'')"

definition value_start :: "char \<Rightarrow> bool" where
  "value_start c =
     (c = CHR ''n'' \<or> c = CHR ''t'' \<or> c = CHR ''f'' \<or> c = DQUOTE \<or> c = CHR ''['' \<or>
      c = CHR ''{'' \<or> c = CHR ''-'' \<or> is_digit c)"

section \<open>The environment of the benchmark\<close>

text \<open>
  The benchmark calls \<^verbatim>\<open>performance.now\<close>, \<^verbatim>\<open>AsyncStorage\<close>, the MMKV instance
  \<^verbatim>\<open>storage\<close> (a constant of the module, line 10 of \<^verbatim>\<open>src/App.tsx\<close>) and
  \<^verbatim>\<open>console.log\<close>. The state they share is a record passed through every call:
  \<^item> \<open>clock\<close> gives the readings of \<^verbatim>\<open>performance.now\<close> in the order they are taken and
    \<open>ticks\<close> counts the readings taken so far; the readings are arbitrary, so that every
    course of time is covered. Times are real numbers of milliseconds: the rounding of
    JavaScript's doubles is not modelled;
  \<^item> \<open>AsyncStorage\<close> and \<open>storage\<close> are the two stores, maps from keys to stored texts. A
    store keeps what is written and fails on no call; the limits of the device (memory,
    array length) are not modelled;
  \<^item> \<open>console\<close> holds the lines logged;
  \<^item> \<open>calls\<close> records the calls to the environment in the order they complete. An
    \<^verbatim>\<open>await\<close> is modelled by sequencing: the code after it runs on the state the awaited
    call leaves.
\<close>

datatype call =
    PerformanceNow
  | AsyncSetItem string
  | AsyncGetItem string
  | MmkvSet string
  | MmkvGetString string
  | ConsoleLog

datatype log_arg = LogStr string | LogNum real

record world =
  clock :: "nat \<Rightarrow> real"
  ticks :: nat
  AsyncStorage :: "string \<rightharpoonup> string"
  storage :: "string \<rightharpoonup> string"
  console :: "log_arg list list"
  calls :: "call list"

definition performance_now :: "world \<Rightarrow> real \<times> world" where
  "performance_now w =
     (clock w (ticks w), w\<lparr>ticks := Suc (ticks w), calls := calls w @ [PerformanceNow]\<rparr>)"

definition AsyncStorage_setItem :: "string \<Rightarrow> string \<Rightarrow> world \<Rightarrow> world" where
  "AsyncStorage_setItem key text w =
     w\<lparr>AsyncStorage := (AsyncStorage w)(key \<mapsto> text), calls := calls w @ [AsyncSetItem key]\<rparr>"

text \<open>\<^verbatim>\<open>AsyncStorage.getItem\<close> resolves to \<^verbatim>\<open>null\<close> when the key has no entry.\<close>

definition AsyncStorage_getItem :: "string \<Rightarrow> world \<Rightarrow> js_value \<times> world" where
  "AsyncStorage_getItem key w =
     ((case AsyncStorage w key of None \<Rightarrow> Null | Some text \<Rightarrow> String text),
      w\<lparr>calls := calls w @ [AsyncGetItem key]\<rparr>)"

definition storage_set :: "string \<Rightarrow> string \<Rightarrow> world \<Rightarrow> world" where
  "storage_set key text w =
     w\<lparr>storage := (storage w)(key \<mapsto> text), calls := calls w @ [MmkvSet key]\<rparr>"

text \<open>\<^verbatim>\<open>storage.getString\<close> returns \<^verbatim>\<open>undefined\<close> when the key has no entry.\<close>

definition storage_getString :: "string \<Rightarrow> world \<Rightarrow> js_value \<times> world" where
  "storage_getString key w =
     ((case storage w key of None \<Rightarrow> Undefined | Some text \<Rightarrow> String text),
      w\<lparr>calls := calls w @ [MmkvGetString key]\<rparr>)"

definition console_log :: "log_arg list \<Rightarrow> world \<Rightarrow> world" where
  "console_log args w = w\<lparr>console := console w @ [args], calls := calls w @ [ConsoleLog]\<rparr>"

text \<open>
  The result of a division and of the product that follows it. A timing is a finite
  number, and so are the differences, sums and halves of timings; a division by a timing
  that is zero gives \<^verbatim>\<open>Infinity\<close> or \<^verbatim>\<open>NaN\<close> in JavaScript and never fails. The zero
  timing is a difference of two equal readings, which is the positive zero.
\<close>

datatype js_number = Finite real | PosInfinity | NegInfinity | NaN

definition js_divide :: "real \<Rightarrow> real \<Rightarrow> js_number" where
  "js_divide x y =
     (if y \<noteq> 0 then Finite (x / y)
      else if 0 < x then PosInfinity
      else if x < 0 then NegInfinity
      else NaN)"

fun js_times :: "js_number \<Rightarrow> real \<Rightarrow> js_number" where
  "js_times (Finite x) y = Finite (x * y)"
| "js_times PosInfinity y = (if 0 < y then PosInfinity else if y < 0 then NegInfinity else NaN)"
| "js_times NegInfinity y = (if 0 < y then NegInfinity else if y < 0 then PosInfinity else NaN)"
| "js_times NaN y = NaN"

section \<open>The benchmark\<close>

subsection \<open>The timed operations (lines 13 to 40 of \<^verbatim>\<open>src/App.tsx\<close>)\<close>

record read_result =
  time :: real
  value' :: json

definition asyncStorageWrite :: "string \<Rightarrow> json \<Rightarrow> world \<Rightarrow> real \<times> world" where
  "asyncStorageWrite key v w =
     (let (startTime, w1) = performance_now w;
          w2 = AsyncStorage_setItem key (JSON_stringify v) w1;
          (endTime, w3) = performance_now w2
      in (endTime - startTime, w3))"

text \<open>
  A read returns its result or throws what \<^verbatim>\<open>JSON.parse\<close> throws; the state is the one
  the calls made so far have left.
\<close>

definition asyncStorageRead :: "string \<Rightarrow> world \<Rightarrow> (js_error + read_result) \<times> world" where
  "asyncStorageRead key w =
     (let (startTime, w1) = performance_now w;
          (v, w2) = AsyncStorage_getItem key w1;
          (endTime, w3) = performance_now w2
      in (case JSON_parse v of
            Inl e \<Rightarrow> Inl e
          | Inr j \<Rightarrow> Inr \<lparr>time = endTime - startTime, value' = j\<rparr>,
          w3))"

definition mmkvWrite :: "string \<Rightarrow> json \<Rightarrow> world \<Rightarrow> real \<times> world" where
  "mmkvWrite key v w =
     (let (startTime, w1) = performance_now w;
          w2 = storage_set key (JSON_stringify v) w1;
          (endTime, w3) = performance_now w2
      in (endTime - startTime, w3))"

definition mmkvRead :: "string \<Rightarrow> world \<Rightarrow> (js_error + read_result) \<times> world" where
  "mmkvRead key w =
     (let (startTime, w1) = performance_now w;
          (v, w2) = storage_getString key w1;
          (endTime, w3) = performance_now w2
      in (case JSON_parse v of
            Inl e \<Rightarrow> Inl e
          | Inr j \<Rightarrow> Inr \<lparr>time = endTime - startTime, value' = j\<rparr>,
          w3))"

subsection \<open>The payload (line 44)\<close>

text \<open>
  \<^verbatim>\<open>Array.from({ length: size }, (_, i) => ({ id: i, value: `Data ${i}` }))\<close>: the loop of
  \<^verbatim>\<open>Array.from\<close> over an array-like object calls the function at the indices from 0 up to
  the length and appends what it returns. A negative length counts as 0. The size is an
  integer, as the three sizes the application passes are (10, 1000 and 100000 or 10000);
  the bounds of the engine on the length of an array and of a string are not modelled.
\<close>

function Array_from_loop :: "nat \<Rightarrow> nat \<Rightarrow> (int \<Rightarrow> json) \<Rightarrow> json list \<Rightarrow> json list" where
  "Array_from_loop len k mapFn A =
     (if k < len then Array_from_loop len (Suc k) mapFn (A @ [mapFn (int k)]) else A)"
  by pat_completeness auto
termination
  by (relation "measure (\<lambda>(len, k, mapFn, A). len - k)") auto

definition Array_from :: "int \<Rightarrow> (int \<Rightarrow> json) \<Rightarrow> json list" where
  "Array_from len mapFn = Array_from_loop (nat len) 0 mapFn []"

definition payload_item :: "int \<Rightarrow> json" where
  "payload_item i = JObj [(''id'', JNum i), (''value'', JStr (''Data '' @ Number_toString i))]"

definition data :: "int \<Rightarrow> json" where
  "data sz = JArr (Array_from sz payload_item)"

subsection \<open>The four timed calls (lines 46 to 50)\<close>

text \<open>
  The part that the two versions of \<^verbatim>\<open>runBenchmark\<close> share: the payload, then
  \<^verbatim>\<open>asyncWriteTime\<close>, \<^verbatim>\<open>asyncReadResult\<close>, \<^verbatim>\<open>mmkvWriteTime\<close> and
  \<^verbatim>\<open>mmkvReadResult\<close>, in this order. An exception of a read ends the run.
\<close>

definition timedCalls ::
  "int \<Rightarrow> world \<Rightarrow> (js_error + (real \<times> read_result \<times> real \<times> read_result)) \<times> world" where
  "timedCalls sz w =
     (let d = data sz;
          (aw, w1) = asyncStorageWrite ''asyncKey'' d w
      in case asyncStorageRead ''asyncKey'' w1 of
           (Inl e, w2) \<Rightarrow> (Inl e, w2)
         | (Inr ar, w2) \<Rightarrow>
             let (mw, w3) = mmkvWrite ''mmkvKey'' d w2
             in case mmkvRead ''mmkvKey'' w3 of
                  (Inl e, w4) \<Rightarrow> (Inl e, w4)
                | (Inr mr, w4) \<Rightarrow> (Inr (aw, ar, mw, mr), w4))"

subsection \<open>\<^verbatim>\<open>runBenchmark\<close> of \<^verbatim>\<open>src/App.tsx\<close> (lines 43 to 72)\<close>

record timings =
  size' :: int
  asyncWriteTime :: real
  asyncReadTime :: real
  mmkvWriteTime :: real
  mmkvReadTime :: real
  writeDifference :: real
  readDifference :: real

record benchmark_result = timings +
  asyncAvg :: real
  mmkvAvg :: real

definition runBenchmark :: "int \<Rightarrow> world \<Rightarrow> (js_error + benchmark_result) \<times> world" where
  "runBenchmark sz w =
     (case timedCalls sz w of
        (Inl e, w') \<Rightarrow> (Inl e, w')
      | (Inr (aw, ar, mw, mr), w') \<Rightarrow>
          let w1 = console_log
                     [LogStr ''AsyncStorage Read: '', LogNum (time ar),
                      LogStr ''MMKV Read: '', LogNum (time mr)] w';
              w2 = console_log
                     [LogStr ''AsyncStorage Write: '', LogNum aw,
                      LogStr ''MMKV Write: '', LogNum mw] w1
          in (Inr \<lparr>size' = sz,
                    asyncWriteTime = aw,
                    asyncReadTime = time ar,
                    mmkvWriteTime = mw,
                    mmkvReadTime = time mr,
                    writeDifference = \<bar>aw - mw\<bar>,
                    readDifference = \<bar>time ar - time mr\<bar>,
                    asyncAvg = (aw + time ar) / 2,
                    mmkvAvg = (mw + time mr) / 2\<rparr>,
              w2))"

text \<open>
  \<^verbatim>\<open>handleRunTests\<close> (lines 77 to 80) awaits the run and appends its result to the
  component's \<^verbatim>\<open>results\<close>.
\<close>

definition handleRunTests ::
  "int \<Rightarrow> benchmark_result list \<Rightarrow> world \<Rightarrow> (js_error + benchmark_result list) \<times> world" where
  "handleRunTests sz results w =
     (case runBenchmark sz w of
        (Inl e, w') \<Rightarrow> (Inl e, w')
      | (Inr result, w') \<Rightarrow> (Inr (results @ [result]), w'))"

subsection \<open>\<^verbatim>\<open>runBenchmark\<close> of \<^verbatim>\<open>src/unnamed/part_000\<close> (lines 41 to 73)\<close>

record benchmark_result_pct = timings +
  writePercentageDifference :: js_number
  readPercentageDifference :: js_number

definition runBenchmark_part_000 ::
  "int \<Rightarrow> world \<Rightarrow> (js_error + benchmark_result_pct) \<times> world" where
  "runBenchmark_part_000 sz w =
     (case timedCalls sz w of
        (Inl e, w') \<Rightarrow> (Inl e, w')
      | (Inr (aw, ar, mw, mr), w') \<Rightarrow>
          let wd = \<bar>aw - mw\<bar>;
              rd = \<bar>time ar - time mr\<bar>
          in (Inr \<lparr>size' = sz,
                    asyncWriteTime = aw,
                    asyncReadTime = time ar,
                    mmkvWriteTime = mw,
                    mmkvReadTime = time mr,
                    writeDifference = wd,
                    readDifference = rd,
                    writePercentageDifference =
                      (if aw < mw then js_times (js_divide wd aw) 100
                       else js_times (js_divide wd mw) 100),
                    readPercentageDifference =
                      (if time ar < time mr then js_times (js_divide rd (time ar)) 100
                       else js_times (js_divide rd (time mr)) 100)\<rparr>,
              w'))"

definition handleRunTests_part_000 ::
  "int \<Rightarrow> benchmark_result_pct list \<Rightarrow> world \<Rightarrow>
     (js_error + benchmark_result_pct list) \<times> world" where
  "handleRunTests_part_000 sz results w =
     (case runBenchmark_part_000 sz w of
        (Inl e, w') \<Rightarrow> (Inl e, w')
      | (Inr result, w') \<Rightarrow> (Inr (results @ [result]), w'))"

text \<open>The calls that the four timed operations make, in order.\<close>

definition calls_of_run :: "call list" where
  "calls_of_run =
     [PerformanceNow, AsyncSetItem ''asyncKey'', PerformanceNow,
      PerformanceNow, AsyncGetItem ''asyncKey'', PerformanceNow,
      PerformanceNow, MmkvSet ''mmkvKey'', PerformanceNow,
      PerformanceNow, MmkvGetString ''mmkvKey'', PerformanceNow]"

text \<open>
  A state to run the benchmark from: nothing stored, nothing logged, and a clock that
  advances by one millisecond from a reading to the next.
\<close>

definition world0 :: world where
  "world0 = \<lparr>clock = (\<lambda>i. real i), ticks = 0, AsyncStorage = Map.empty,
             storage = Map.empty, console = [], calls = []\<rparr>"

section \<open>\<open>JSON_parse\<close> reads back what \<open>JSON_stringify\<close> writes\<close>

declare digits_of.simps [simp del]

subsection \<open>Strings\<close>

lemma of_char_lt_256: "(of_char c :: nat) < 256"
  by (cases c) simp

lemma hex_val_hex_char: "d < 16 \<Longrightarrow> hex_val (hex_char d) = Some d"
  by (simp add: hex_val_def hex_char_def Let_def)

lemma hex4_quote:
  assumes "n < 256"
  shows "hex4 [CHR ''0'', CHR ''0'', hex_char (n div 16), hex_char (n mod 16)] = Some n"
proof -
  have "n div 16 < 16" using assms by simp
  moreover have "n mod 16 < 16" by simp
  moreover have "hex_val CHR ''0'' = Some 0" by (simp add: hex_val_def)
  ultimately show ?thesis by (simp add: hex_val_hex_char)
qed

lemma parse_chars_quote_char:
  "parse_chars acc (quote_char c @ rest) = parse_chars (acc @ [c]) rest"
proof (cases "(of_char c :: nat) < 0x20")
  case True
  have "hex4 [CHR ''0'', CHR ''0'', hex_char (of_char c div 16), hex_char (of_char c mod 16)]
          = Some (of_char c)"
    by (rule hex4_quote) (rule of_char_lt_256)
  with True show ?thesis
    by (simp add: quote_char_def simple_escape_def of_char_lt_256)
next
  case False
  then show ?thesis by (simp add: quote_char_def simple_escape_def)
qed

lemma parse_chars_quoted:
  "parse_chars acc (concat (map quote_char s) @ DQUOTE # rest) = Inr (acc @ s, rest)"
proof (induction s arbitrary: acc)
  case Nil
  show ?case by simp
next
  case (Cons c s)
  have "parse_chars acc (concat (map quote_char (c # s)) @ DQUOTE # rest)
      = parse_chars acc (quote_char c @ (concat (map quote_char s) @ DQUOTE # rest))"
    by simp
  also have "\<dots> = parse_chars (acc @ [c]) (concat (map quote_char s) @ DQUOTE # rest)"
    by (rule parse_chars_quote_char)
  also have "\<dots> = Inr ((acc @ [c]) @ s, rest)"
    by (rule Cons.IH)
  finally show ?case by simp
qed

lemma QuoteJSONString_append:
  "QuoteJSONString s @ rest = DQUOTE # concat (map quote_char s) @ DQUOTE # rest"
  by (simp add: QuoteJSONString_def)

subsection \<open>Numbers\<close>

lemma of_char_digit_char: "d < 10 \<Longrightarrow> (of_char (digit_char d) :: nat) = 48 + d"
  by (simp add: digit_char_def)

lemma is_digit_digit_char: "d < 10 \<Longrightarrow> is_digit (digit_char d)"
  by (simp add: is_digit_def of_char_digit_char)

lemma digit_val_digit_char: "d < 10 \<Longrightarrow> digit_val (digit_char d) = d"
  by (simp add: digit_val_def of_char_digit_char)

lemma digit_char_0: "digit_char 0 = CHR ''0''"
proof -
  have "(48::nat) = of_char CHR ''0''" by simp
  then have "char_of (48::nat) = char_of (of_char CHR ''0'' :: nat)" by simp
  then show ?thesis by (simp only: digit_char_def char_of_char add_0_right)
qed

lemma digit_char_eq_zero: "d < 10 \<Longrightarrow> digit_char d = CHR ''0'' \<longleftrightarrow> d = 0"
proof
  assume "d < 10" and "digit_char d = CHR ''0''"
  then have "(of_char (digit_char d) :: nat) = of_char CHR ''0''" by simp
  with \<open>d < 10\<close> show "d = 0" by (simp add: of_char_digit_char)
next
  assume "d = 0"
  then show "digit_char d = CHR ''0''" by (simp add: digit_char_0)
qed

lemma digits_of_all_digits: "\<forall>c \<in> set (digits_of n). is_digit c"
proof (induction n rule: digits_of.induct)
  case (1 n)
  show ?case
  proof (cases "n < 10")
    case True
    then show ?thesis by (simp add: digits_of.simps [of n] is_digit_digit_char)
  next
    case False
    with "1" show ?thesis by (simp add: digits_of.simps [of n] is_digit_digit_char)
  qed
qed

lemma digits_of_not_Nil: "digits_of n \<noteq> []"
  by (simp add: digits_of.simps [of n])

lemma digits_of_hd: "0 < n \<Longrightarrow> hd (digits_of n) \<noteq> CHR ''0''"
proof (induction n rule: digits_of.induct)
  case (1 n)
  show ?case
  proof (cases "n < 10")
    case True
    with "1.prems" show ?thesis
      by (simp add: digits_of.simps [of n] digit_char_eq_zero)
  next
    case False
    then have "0 < n div 10" by simp
    with False "1.IH" have "hd (digits_of (n div 10)) \<noteq> CHR ''0''" by simp
    with False show ?thesis
      by (simp add: digits_of.simps [of n] digits_of_not_Nil)
  qed
qed

lemma digits_val_snoc: "digits_val (ds @ [c]) = 10 * digits_val ds + digit_val c"
  by (simp add: digits_val_def)

lemma digits_val_digits_of: "digits_val (digits_of n) = n"
proof (induction n rule: digits_of.induct)
  case (1 n)
  show ?case
  proof (cases "n < 10")
    case True
    then show ?thesis
      by (simp add: digits_of.simps [of n] digits_val_def digit_val_digit_char)
  next
    case False
    with "1" have "digits_val (digits_of (n div 10)) = n div 10" by simp
    with False show ?thesis
      by (simp add: digits_of.simps [of n] digits_val_snoc digit_val_digit_char)
  qed
qed

lemma takeWhile_digits:
  assumes "\<forall>c \<in> set ds. is_digit c" and "\<not> num_cont rest"
  shows "takeWhile is_digit (ds @ rest) = ds"
proof -
  have "takeWhile is_digit rest = []"
    using assms(2) by (cases rest) (simp_all add: num_cont_def)
  with assms(1) show ?thesis by (simp add: takeWhile_append2)
qed

lemma is_digit_not_minus: "is_digit c \<Longrightarrow> c \<noteq> CHR ''-''"
  by (auto simp: is_digit_def)

lemma int_digits_digits_of:
  assumes "\<not> num_cont rest"
  shows "int_digits (digits_of n @ rest) = digits_of n"
proof -
  obtain d ds where ds: "digits_of n = d # ds"
    using digits_of_not_Nil [of n] by (cases "digits_of n") auto
  have all: "\<forall>c \<in> set (d # ds). is_digit c"
    using digits_of_all_digits [of n] ds by simp
  show ?thesis
  proof (cases "n = 0")
    case True
    then have "digits_of n = [CHR ''0'']"
      by (simp add: digits_of.simps [of 0] digit_char_0)
    with ds all show ?thesis by (simp add: int_digits_def)
  next
    case False
    then have "hd (digits_of n) \<noteq> CHR ''0''" using digits_of_hd [of n] by simp
    then have "d \<noteq> CHR ''0''" using ds by simp
    moreover have "takeWhile is_digit (ds @ rest) = ds"
      using all assms by (intro takeWhile_digits) simp_all
    ultimately show ?thesis using ds all by (simp add: int_digits_def)
  qed
qed

lemma not_starts_fraction: "\<not> num_cont rest \<Longrightarrow> \<not> starts_fraction rest"
  by (cases rest) (auto simp: num_cont_def starts_fraction_def)

lemma parse_unsigned_digits:
  assumes "\<not> num_cont rest"
  shows "parse_unsigned (digits_of n @ rest) = Inr (n, rest)"
  using assms
  by (simp add: parse_unsigned_def int_digits_digits_of digits_of_not_Nil
      not_starts_fraction digits_val_digits_of)

lemma digits_of_no_minus: "digits_of n @ rest = c # r \<Longrightarrow> c \<noteq> CHR ''-''"
proof -
  assume eq: "digits_of n @ rest = c # r"
  then have "c \<in> set (digits_of n)"
    using digits_of_not_Nil [of n] by (cases "digits_of n") auto
  then have "is_digit c" using digits_of_all_digits by blast
  then show ?thesis by (rule is_digit_not_minus)
qed

lemma parse_number_digits:
  assumes "\<not> num_cont rest"
  shows "parse_number (digits_of n @ rest) = Inr (int n, rest)"
    and "parse_number (CHR ''-'' # digits_of n @ rest) = Inr (- int n, rest)"
proof -
  obtain d r where eq: "digits_of n @ rest = d # r"
    using digits_of_not_Nil [of n] by (cases "digits_of n @ rest") auto
  have "d \<noteq> CHR ''-''" using eq by (rule digits_of_no_minus)
  moreover have "parse_unsigned (d # r) = Inr (n, rest)"
    using parse_unsigned_digits [OF assms, of n] eq by simp
  ultimately show "parse_number (digits_of n @ rest) = Inr (int n, rest)"
    unfolding eq by (simp add: parse_number_def)
  show "parse_number (CHR ''-'' # digits_of n @ rest) = Inr (- int n, rest)"
    by (simp add: parse_number_def parse_unsigned_digits [OF assms])
qed

lemma parse_number_toString:
  assumes "\<not> num_cont rest"
  shows "parse_number (Number_toString i @ rest) = Inr (i, rest)"
proof (cases "i < 0")
  case True
  then show ?thesis
    using parse_number_digits(2) [OF assms, of "nat (- i)"]
    by (simp add: Number_toString_def)
next
  case False
  then show ?thesis
    using parse_number_digits(1) [OF assms, of "nat i"]
    by (simp add: Number_toString_def)
qed

subsection \<open>The first character of a serialised value\<close>

lemma value_start_not_ws: "value_start c \<Longrightarrow> \<not> is_ws c"
  by (auto simp: value_start_def is_ws_def is_digit_def)

lemma value_start_not_close: "value_start c \<Longrightarrow> c \<noteq> CHR '']'' \<and> c \<noteq> CHR ''}''"
  by (auto simp: value_start_def is_digit_def)

lemma Number_toString_start:
  "\<exists>c cs. Number_toString i = c # cs \<and> (c = CHR ''-'' \<or> is_digit c)"
proof (cases "i < 0")
  case True
  then show ?thesis by (simp add: Number_toString_def)
next
  case False
  obtain d ds where ds: "digits_of (nat i) = d # ds"
    using digits_of_not_Nil [of "nat i"] by (cases "digits_of (nat i)") auto
  then have "is_digit d" using digits_of_all_digits [of "nat i"] by simp
  with False ds show ?thesis by (simp add: Number_toString_def)
qed

lemma stringify_start: "\<exists>c cs. JSON_stringify v = c # cs \<and> value_start c"
proof (cases v)
  case (JNum i)
  then show ?thesis using Number_toString_start [of i] by (auto simp: value_start_def)
qed (auto simp: value_start_def QuoteJSONString_def)

lemma length_stringify_pos: "0 < length (JSON_stringify v)"
  using stringify_start [of v] by auto

lemma stringify_elements_start:
  "xs \<noteq> [] \<Longrightarrow> \<exists>c cs. stringify_elements xs = c # cs \<and> value_start c"
proof (cases xs)
  case Nil
  assume "xs \<noteq> []"
  with Nil show ?thesis by simp
next
  case (Cons x ys)
  obtain c cs where "JSON_stringify x = c # cs" and "value_start c"
    using stringify_start by blast
  with Cons show ?thesis by (cases ys) auto
qed

lemma stringify_members_start:
  "kvs \<noteq> [] \<Longrightarrow> \<exists>cs. stringify_members kvs = DQUOTE # cs"
proof (cases kvs)
  case Nil
  assume "kvs \<noteq> []"
  with Nil show ?thesis by simp
next
  case (Cons kv ms)
  then show ?thesis by (cases kv; cases ms) (auto simp: QuoteJSONString_def)
qed

subsection \<open>One step of the parser on each form of input\<close>

lemma pv_null: "parse_value (Suc n) (''null'' @ rest) = Inr (JNull, rest)"
  by (simp add: skip_ws_def is_ws_def parse_scalar_def)

lemma pv_true: "parse_value (Suc n) (''true'' @ rest) = Inr (JBool True, rest)"
  by (simp add: skip_ws_def is_ws_def parse_scalar_def)

lemma pv_false: "parse_value (Suc n) (''false'' @ rest) = Inr (JBool False, rest)"
  by (simp add: skip_ws_def is_ws_def parse_scalar_def)

lemma pv_string:
  "parse_value (Suc n) (DQUOTE # cs) =
     (case parse_chars [] cs of Inl e \<Rightarrow> Inl e | Inr (str, r) \<Rightarrow> Inr (JStr str, r))"
  by (simp add: skip_ws_def is_ws_def parse_scalar_def)

lemma pv_number:
  assumes "c = CHR ''-'' \<or> is_digit c"
  shows "parse_value (Suc n) (c # cs) =
     (case parse_number (c # cs) of Inl e \<Rightarrow> Inl e | Inr (i, r) \<Rightarrow> Inr (JNum i, r))"
proof -
  have "\<not> is_ws c" and "c \<noteq> CHR ''n''" and "c \<noteq> CHR ''t''" and "c \<noteq> CHR ''f''"
    and "c \<noteq> DQUOTE" and "c \<noteq> CHR ''[''" and "c \<noteq> CHR ''{''"
    using assms by (auto simp: is_ws_def is_digit_def)
  with assms show ?thesis by (simp add: skip_ws_def parse_scalar_def)
qed

lemma pv_empty_array:
  "parse_value (Suc n) (CHR ''['' # CHR '']'' # rest) = Inr (JArr [], rest)"
  by (simp add: skip_ws_def is_ws_def)

lemma pv_array:
  assumes "\<not> is_ws d" and "d \<noteq> CHR '']''"
  shows "parse_value (Suc n) (CHR ''['' # d # ds) =
     (case parse_elements n [] (d # ds) of Inl e \<Rightarrow> Inl e | Inr (xs, r) \<Rightarrow> Inr (JArr xs, r))"
  using assms by (simp add: skip_ws_def is_ws_def)

lemma pv_empty_object:
  "parse_value (Suc n) (CHR ''{'' # CHR ''}'' # rest) = Inr (JObj [], rest)"
  by (simp add: skip_ws_def is_ws_def)

lemma pv_object:
  assumes "\<not> is_ws d" and "d \<noteq> CHR ''}''"
  shows "parse_value (Suc n) (CHR ''{'' # d # ds) =
     (case parse_members n [] (d # ds) of Inl e \<Rightarrow> Inl e | Inr (kvs, r) \<Rightarrow> Inr (JObj kvs, r))"
  using assms by (simp add: skip_ws_def is_ws_def)

lemma pe_step:
  "parse_value n s = Inr (v, CHR '','' # r) \<Longrightarrow>
     parse_elements (Suc n) acc s = parse_elements n (acc @ [v]) r"
  by (simp add: skip_ws_def is_ws_def)

lemma pe_last:
  "parse_value n s = Inr (v, CHR '']'' # r) \<Longrightarrow>
     parse_elements (Suc n) acc s = Inr (acc @ [v], r)"
  by (simp add: skip_ws_def is_ws_def)

lemma pm_step:
  "parse_value n cs = Inr (v, CHR '','' # r) \<Longrightarrow>
     parse_members (Suc n) acc (QuoteJSONString k @ CHR '':'' # cs) =
       parse_members n (set_property k v acc) r"
  by (simp add: QuoteJSONString_append parse_chars_quoted skip_ws_def is_ws_def)

lemma pm_last:
  "parse_value n cs = Inr (v, CHR ''}'' # r) \<Longrightarrow>
     parse_members (Suc n) acc (QuoteJSONString k @ CHR '':'' # cs) =
       Inr (set_property k v acc, r)"
  by (simp add: QuoteJSONString_append parse_chars_quoted skip_ws_def is_ws_def)

lemma set_property_fresh: "k \<notin> fst ` set acc \<Longrightarrow> set_property k v acc = acc @ [(k, v)]"
  by (induction acc) auto

lemma not_num_cont_sep [simp]:
  "\<not> num_cont (CHR '','' # r)" "\<not> num_cont (CHR '']'' # r)" "\<not> num_cont (CHR ''}'' # r)"
  "\<not> num_cont []"
  by (simp_all add: num_cont_def is_digit_def)

subsection \<open>The round trip\<close>

text \<open>
  By induction along \<open>JSON_stringify\<close>: the parser, given at least as many nested calls
  as the text has characters, reads a serialised value back and stops right after it.
\<close>

declare parse_value.simps [simp del] parse_elements.simps [simp del]
  parse_members.simps [simp del]

lemma parse_stringify_all:
  shows "\<And>n rest. wf_json v \<Longrightarrow> \<not> num_cont rest \<Longrightarrow> length (JSON_stringify v) \<le> n \<Longrightarrow>
           parse_value n (JSON_stringify v @ rest) = Inr (v, rest)"
    and "\<And>n acc rest. xs \<noteq> [] \<Longrightarrow> wf_elements xs \<Longrightarrow>
           length (stringify_elements xs) + 1 \<le> n \<Longrightarrow>
           parse_elements n acc (stringify_elements xs @ CHR '']'' # rest) = Inr (acc @ xs, rest)"
    and "\<And>n acc rest. kvs \<noteq> [] \<Longrightarrow> wf_members kvs \<Longrightarrow> distinct (map fst (acc @ kvs)) \<Longrightarrow>
           length (stringify_members kvs) + 1 \<le> n \<Longrightarrow>
           parse_members n acc (stringify_members kvs @ CHR ''}'' # rest) = Inr (acc @ kvs, rest)"
proof (induction v and xs and kvs rule: JSON_stringify_stringify_elements_stringify_members.induct)
  case 1
  then obtain m where "n = Suc m" by (cases n) auto
  then show ?case using pv_null [of m rest] by simp
next
  case (2 b)
  then obtain m where "n = Suc m"
    using length_stringify_pos [of "JBool b"] by (cases n) (auto split: if_splits)
  then show ?case using pv_true [of m rest] pv_false [of m rest] by simp
next
  case (3 i)
  have "0 < n" using "3.prems"(3) length_stringify_pos [of "JNum i"] by linarith
  then obtain m where n: "n = Suc m" by (cases n) auto
  obtain c cs where cs: "Number_toString i = c # cs" and c: "c = CHR ''-'' \<or> is_digit c"
    using Number_toString_start by blast
  have "parse_value (Suc m) (c # (cs @ rest)) =
      (case parse_number (c # (cs @ rest)) of Inl e \<Rightarrow> Inl e | Inr (i, r) \<Rightarrow> Inr (JNum i, r))"
    using c by (rule pv_number)
  moreover have "parse_number (c # (cs @ rest)) = Inr (i, rest)"
    using parse_number_toString [OF "3.prems"(2), of i] cs by simp
  ultimately show ?case using n cs by simp
next
  case (4 s)
  then obtain m where n: "n = Suc m" by (cases n) (auto simp: QuoteJSONString_def)
  show ?case
    by (simp add: n QuoteJSONString_append pv_string parse_chars_quoted)
next
  case (5 xs)
  then obtain m where n: "n = Suc m" by (cases n) auto
  show ?case
  proof (cases "xs = []")
    case True
    then show ?thesis by (simp add: n pv_empty_array)
  next
    case False
    then obtain d ds where ds: "stringify_elements xs = d # ds" and d: "value_start d"
      using stringify_elements_start by blast
    have "parse_elements m [] (stringify_elements xs @ CHR '']'' # rest) = Inr ([] @ xs, rest)"
      using False "5.prems" n by (intro "5.IH") simp_all
    then have "parse_elements m [] (d # ds @ CHR '']'' # rest) = Inr (xs, rest)"
      using ds by simp
    moreover have "parse_value (Suc m) (CHR ''['' # d # (ds @ CHR '']'' # rest)) =
      (case parse_elements m [] (d # (ds @ CHR '']'' # rest)) of
         Inl e \<Rightarrow> Inl e | Inr (xs, r) \<Rightarrow> Inr (JArr xs, r))"
      using value_start_not_ws [OF d] value_start_not_close [OF d] by (intro pv_array) simp_all
    ultimately show ?thesis using n ds by simp
  qed
next
  case (6 kvs)
  then obtain m where n: "n = Suc m" by (cases n) auto
  show ?case
  proof (cases "kvs = []")
    case True
    then show ?thesis by (simp add: n pv_empty_object)
  next
    case False
    then obtain ds where ds: "stringify_members kvs = DQUOTE # ds"
      using stringify_members_start by blast
    have "parse_members m [] (stringify_members kvs @ CHR ''}'' # rest) = Inr ([] @ kvs, rest)"
      using False "6.prems" n by (intro "6.IH") simp_all
    then have "parse_members m [] (DQUOTE # ds @ CHR ''}'' # rest) = Inr (kvs, rest)"
      using ds by simp
    moreover have "parse_value (Suc m) (CHR ''{'' # DQUOTE # (ds @ CHR ''}'' # rest)) =
      (case parse_members m [] (DQUOTE # (ds @ CHR ''}'' # rest)) of
         Inl e \<Rightarrow> Inl e | Inr (kvs, r) \<Rightarrow> Inr (JObj kvs, r))"
      by (intro pv_object) (simp_all add: is_ws_def)
    ultimately show ?thesis using n ds by simp
  qed
next
  case 7
  then show ?case by simp
next
  case (8 x)
  then obtain m where n: "n = Suc m" by (cases n) auto
  have "parse_value m (JSON_stringify x @ CHR '']'' # rest) = Inr (x, CHR '']'' # rest)"
    using "8.prems" n by (intro "8.IH") simp_all
  then show ?case by (simp add: n pe_last)
next
  case (9 x y ys)
  then obtain m where n: "n = Suc m" by (cases n) auto
  let ?more = "stringify_elements (y # ys) @ CHR '']'' # rest"
  have "parse_value m (JSON_stringify x @ CHR '','' # ?more) = Inr (x, CHR '','' # ?more)"
    using "9.prems" n by (intro "9.IH"(1)) simp_all
  then have "parse_elements (Suc m) acc (JSON_stringify x @ CHR '','' # ?more)
      = parse_elements m (acc @ [x]) ?more"
    by (rule pe_step)
  also have "\<dots> = Inr ((acc @ [x]) @ y # ys, rest)"
    using "9.prems" n length_stringify_pos [of x] by (intro "9.IH"(2)) simp_all
  finally show ?case by (simp add: n)
next
  case 10
  then show ?case by simp
next
  case (11 k v)
  then obtain m where n: "n = Suc m" by (cases n) auto
  have "parse_value m (JSON_stringify v @ CHR ''}'' # rest) = Inr (v, CHR ''}'' # rest)"
    using "11.prems" n by (intro "11.IH") (simp_all add: QuoteJSONString_def)
  then have "parse_members (Suc m) acc
        (QuoteJSONString k @ CHR '':'' # JSON_stringify v @ CHR ''}'' # rest)
      = Inr (set_property k v acc, rest)"
    by (rule pm_last)
  moreover have "set_property k v acc = acc @ [(k, v)]"
    using "11.prems" by (intro set_property_fresh) auto
  ultimately show ?case by (simp add: n)
next
  case (12 k v kv ms)
  then obtain m where n: "n = Suc m" by (cases n) auto
  let ?more = "stringify_members (kv # ms) @ CHR ''}'' # rest"
  have fresh: "set_property k v acc = acc @ [(k, v)]"
    using "12.prems" by (intro set_property_fresh) auto
  have "parse_value m (JSON_stringify v @ CHR '','' # ?more) = Inr (v, CHR '','' # ?more)"
    using "12.prems" n by (intro "12.IH"(1)) (simp_all add: QuoteJSONString_def)
  then have "parse_members (Suc m) acc
        (QuoteJSONString k @ CHR '':'' # JSON_stringify v @ CHR '','' # ?more)
      = parse_members m (set_property k v acc) ?more"
    by (rule pm_step)
  also have "\<dots> = Inr ((acc @ [(k, v)]) @ kv # ms, rest)"
    unfolding fresh
    using "12.prems" n by (intro "12.IH"(2)) (simp_all add: QuoteJSONString_def)
  finally show ?case by (simp add: n)
qed

lemma JSON_parse_stringify:
  assumes "wf_json v"
  shows "JSON_parse (String (JSON_stringify v)) = Inr v"
proof -
  have "parse_value (2 * length (JSON_stringify v) + 2) (JSON_stringify v @ []) = Inr (v, [])"
    using assms by (intro parse_stringify_all(1)) simp_all
  then show ?thesis by (simp add: JSON_parse_def skip_ws_def)
qed


subsection \<open>The bound on the nested calls is never reached\<close>

text \<open>
  Every successful call of the parser consumes input, and twice the length of the text
  bounds the nested calls: \<open>JSON_parse\<close> never returns \<open>OutOfFuel\<close>, so the bound is
  not visible in any result.
\<close>

lemma skip_ws_length: "length (skip_ws s) \<le> length s"
  by (simp add: skip_ws_def length_dropWhile_le)

lemma skip_ws_Cons_length: "skip_ws s = c # cs \<Longrightarrow> length cs < length s"
  using skip_ws_length [of s] by simp

lemma parse_chars_step:
  assumes "parse_chars acc (c # cs) = Inr (x, r)"
  shows "r = cs \<or> (\<exists>acc' s'. length s' \<le> length cs \<and> parse_chars acc' s' = Inr (x, r))"
proof (cases "c = DQUOTE")
  case True
  with assms show ?thesis by simp
next
  case nq: False
  show ?thesis
  proof (cases "c = BACKSLASH")
    case False
    with nq assms have "parse_chars (acc @ [c]) cs = Inr (x, r)"
      by (simp split: if_splits)
    then show ?thesis by blast
  next
    case True
    then obtain e es where cs: "cs = e # es"
      using assms nq by (cases cs) auto
    show ?thesis
    proof (cases "e = CHR ''u''")
      case True
      with assms nq \<open>c = BACKSLASH\<close> cs
      obtain n :: nat where "parse_chars (acc @ [char_of n]) (drop 4 es) = Inr (x, r)"
        by (auto split: option.splits if_splits)
      moreover have "length (drop 4 es) \<le> length cs" using cs by simp
      ultimately show ?thesis by blast
    next
      case False
      with assms nq \<open>c = BACKSLASH\<close> cs
      obtain d where "parse_chars (acc @ [d]) es = Inr (x, r)"
        by (auto split: option.splits)
      moreover have "length es \<le> length cs" using cs by simp
      ultimately show ?thesis by blast
    qed
  qed
qed

lemma parse_chars_shorter: "parse_chars acc s = Inr (x, r) \<Longrightarrow> length r < length s"
proof (induction "length s" arbitrary: acc s rule: less_induct)
  case less
  show ?case
  proof (cases s)
    case Nil
    with less.prems show ?thesis by simp
  next
    case (Cons c cs)
    with less.prems parse_chars_step [of acc c cs x r]
    consider "r = cs" | acc' s' where "length s' \<le> length cs" "parse_chars acc' s' = Inr (x, r)"
      by blast
    then show ?thesis
    proof cases
      case 1
      with Cons show ?thesis by simp
    next
      case 2
      then have "length r < length s'" using Cons by (intro less.hyps) simp_all
      with 2 Cons show ?thesis by simp
    qed
  qed
qed


lemma parse_chars_fuel_step:
  assumes "parse_chars acc (c # cs) = Inl OutOfFuel"
  shows "\<exists>acc' s'. length s' \<le> length cs \<and> parse_chars acc' s' = Inl OutOfFuel"
proof (cases "c = DQUOTE")
  case True
  with assms show ?thesis by simp
next
  case nq: False
  show ?thesis
  proof (cases "c = BACKSLASH")
    case False
    with nq assms have "parse_chars (acc @ [c]) cs = Inl OutOfFuel"
      by (simp split: if_splits)
    then show ?thesis by blast
  next
    case True
    then obtain e es where cs: "cs = e # es"
      using assms nq by (cases cs) auto
    show ?thesis
    proof (cases "e = CHR ''u''")
      case True
      with assms nq \<open>c = BACKSLASH\<close> cs
      obtain n :: nat where "parse_chars (acc @ [char_of n]) (drop 4 es) = Inl OutOfFuel"
        by (auto split: option.splits if_splits)
      moreover have "length (drop 4 es) \<le> length cs" using cs by simp
      ultimately show ?thesis by blast
    next
      case False
      with assms nq \<open>c = BACKSLASH\<close> cs
      obtain d where "parse_chars (acc @ [d]) es = Inl OutOfFuel"
        by (auto split: option.splits)
      moreover have "length es \<le> length cs" using cs by simp
      ultimately show ?thesis by blast
    qed
  qed
qed

lemma parse_chars_fuel: "parse_chars acc s \<noteq> Inl OutOfFuel"
proof (induction "length s" arbitrary: acc s rule: less_induct)
  case less
  show ?case
  proof (cases s)
    case Nil
    then show ?thesis by simp
  next
    case (Cons c cs)
    show ?thesis
    proof
      assume "parse_chars acc s = Inl OutOfFuel"
      with Cons parse_chars_fuel_step [of acc c cs]
      obtain acc' s' where "length s' \<le> length cs" "parse_chars acc' s' = Inl OutOfFuel"
        by blast
      moreover have "parse_chars acc' s' \<noteq> Inl OutOfFuel"
        using \<open>length s' \<le> length cs\<close> Cons by (intro less.hyps) simp
      ultimately show False by simp
    qed
  qed
qed

lemma int_digits_length: "length (int_digits s) \<le> length s"
proof (cases s)
  case Nil
  then show ?thesis by (simp add: int_digits_def)
next
  case (Cons d r)
  have "length (takeWhile is_digit r) \<le> length r" by (rule length_takeWhile_le)
  with Cons show ?thesis by (simp add: int_digits_def)
qed

lemma parse_unsigned_shorter:
  assumes "parse_unsigned s = Inr (v, r)"
  shows "length r < length s"
proof -
  from assms have ne: "int_digits s \<noteq> []" and r: "r = drop (length (int_digits s)) s"
    by (auto simp: parse_unsigned_def Let_def split: if_splits)
  from ne have "s \<noteq> []" by (auto simp: int_digits_def)
  with ne r show ?thesis by simp
qed

lemma parse_unsigned_fuel: "parse_unsigned s \<noteq> Inl OutOfFuel"
  by (simp add: parse_unsigned_def Let_def)

lemma parse_number_shorter:
  assumes "parse_number s = Inr (v, r)"
  shows "length r < length s"
proof (cases s)
  case Nil
  with assms show ?thesis by (simp add: parse_number_def)
next
  case (Cons c cs)
  show ?thesis
  proof (cases "c = CHR ''-''")
    case True
    with assms Cons obtain u where "parse_unsigned cs = Inr (u, r)"
      by (auto simp: parse_number_def split: sum.splits)
    then have "length r < length cs" by (rule parse_unsigned_shorter)
    with Cons show ?thesis by simp
  next
    case False
    with assms Cons obtain u where "parse_unsigned s = Inr (u, r)"
      by (auto simp: parse_number_def split: sum.splits)
    then show ?thesis by (rule parse_unsigned_shorter)
  qed
qed

lemma parse_number_fuel: "parse_number s \<noteq> Inl OutOfFuel"
proof (cases s)
  case Nil
  then show ?thesis by (simp add: parse_number_def)
next
  case (Cons c cs)
  then show ?thesis
    using parse_unsigned_fuel [of cs] parse_unsigned_fuel [of s]
    by (auto simp: parse_number_def split: sum.splits)
qed

lemma parse_scalar_shorter:
  assumes "parse_scalar s = Inr (v, r)"
  shows "length r < length s"
proof (cases s)
  case Nil
  with assms show ?thesis by (simp add: parse_scalar_def)
next
  case (Cons c cs)
  consider (lit) "c = CHR ''n'' \<or> c = CHR ''t'' \<or> c = CHR ''f''"
    | (str) "c = DQUOTE"
    | (num) "c \<noteq> CHR ''n''" "c \<noteq> CHR ''t''" "c \<noteq> CHR ''f''" "c \<noteq> DQUOTE"
    by blast
  then show ?thesis
  proof cases
    case lit
    with assms Cons have "\<exists>k. r = drop k cs"
      by (auto simp: parse_scalar_def split: if_splits)
    with Cons show ?thesis by auto
  next
    case str
    with assms Cons obtain x where "parse_chars [] cs = Inr (x, r)"
      by (auto simp: parse_scalar_def split: sum.splits)
    then have "length r < length cs" by (rule parse_chars_shorter)
    with Cons show ?thesis by simp
  next
    case num
    with assms Cons obtain i where "parse_number s = Inr (i, r)"
      by (auto simp: parse_scalar_def split: sum.splits if_splits)
    then show ?thesis by (rule parse_number_shorter)
  qed
qed

lemma parse_scalar_fuel: "parse_scalar s \<noteq> Inl OutOfFuel"
proof (cases s)
  case Nil
  then show ?thesis by (simp add: parse_scalar_def)
next
  case (Cons c cs)
  consider (lit) "c = CHR ''n'' \<or> c = CHR ''t'' \<or> c = CHR ''f''"
    | (str) "c = DQUOTE"
    | (num) "c \<noteq> CHR ''n''" "c \<noteq> CHR ''t''" "c \<noteq> CHR ''f''" "c \<noteq> DQUOTE"
    by blast
  then show ?thesis
  proof cases
    case lit
    with Cons show ?thesis by (auto simp: parse_scalar_def)
  next
    case str
    with Cons show ?thesis
      using parse_chars_fuel [of "[]" cs] by (auto simp: parse_scalar_def split: sum.splits)
  next
    case num
    with Cons show ?thesis
      using parse_number_fuel [of s] by (auto simp: parse_scalar_def split: sum.splits)
  qed
qed

lemma parse_value_Suc_Inr:
  assumes "parse_value (Suc n) s = Inr (v, r)"
  shows "\<exists>cs. length cs < length s \<and>
           (length r \<le> length cs \<or>
            (\<exists>xs. parse_elements n [] cs = Inr (xs, r)) \<or>
            (\<exists>kvs. parse_members n [] cs = Inr (kvs, r)))"
proof -
  obtain c cs where cs: "skip_ws s = c # cs"
    using assms by (cases "skip_ws s") (auto simp: parse_value.simps)
  then have len: "length cs < length s" by (rule skip_ws_Cons_length)
  consider (arr) "c = CHR ''[''" | (obj) "c = CHR ''{''"
    | (scalar) "c \<noteq> CHR ''[''" "c \<noteq> CHR ''{''"
    by blast
  then have "length r \<le> length cs \<or>
      (\<exists>xs. parse_elements n [] cs = Inr (xs, r)) \<or>
      (\<exists>kvs. parse_members n [] cs = Inr (kvs, r))"
  proof cases
    case arr
    then obtain d ds where ds: "skip_ws cs = d # ds"
      using assms cs by (cases "skip_ws cs") (auto simp: parse_value.simps)
    then have "length ds < length cs" by (rule skip_ws_Cons_length)
    moreover have "r = ds \<or> (\<exists>xs. parse_elements n [] cs = Inr (xs, r))"
      using assms cs ds arr by (auto simp: parse_value.simps split: if_splits sum.splits)
    ultimately show ?thesis by auto
  next
    case obj
    then obtain d ds where ds: "skip_ws cs = d # ds"
      using assms cs by (cases "skip_ws cs") (auto simp: parse_value.simps)
    then have "length ds < length cs" by (rule skip_ws_Cons_length)
    moreover have "r = ds \<or> (\<exists>kvs. parse_members n [] cs = Inr (kvs, r))"
      using assms cs ds obj by (auto simp: parse_value.simps split: if_splits sum.splits)
    ultimately show ?thesis by auto
  next
    case scalar
    with assms cs have "parse_scalar (c # cs) = Inr (v, r)"
      by (simp add: parse_value.simps)
    then have "length r < length (c # cs)" by (rule parse_scalar_shorter)
    then show ?thesis by simp
  qed
  with len show ?thesis by blast
qed

lemma parse_elements_Suc_Inr:
  assumes "parse_elements (Suc n) acc s = Inr (xs, r)"
  shows "\<exists>v r1 cs. parse_value n s = Inr (v, r1) \<and> length cs < length r1 \<and>
           (r = cs \<or> parse_elements n (acc @ [v]) cs = Inr (xs, r))"
proof -
  obtain v r1 where pv: "parse_value n s = Inr (v, r1)"
    using assms by (auto simp: parse_elements.simps split: sum.splits)
  obtain c cs where cs: "skip_ws r1 = c # cs"
    using assms pv by (cases "skip_ws r1") (auto simp: parse_elements.simps)
  then have "length cs < length r1" by (rule skip_ws_Cons_length)
  moreover have "r = cs \<or> parse_elements n (acc @ [v]) cs = Inr (xs, r)"
    using assms pv cs by (auto simp: parse_elements.simps split: if_splits)
  ultimately show ?thesis using pv by blast
qed

lemma parse_members_Suc_eq:
  assumes "parse_members (Suc n) acc s = res" and "res \<noteq> Inl SyntaxError"
    and "res \<noteq> Inl NotModelled"
  shows "\<exists>k cs. length cs < length s \<and>
           res = (case parse_value n cs of
                    Inl e \<Rightarrow> Inl e
                  | Inr (v, r2) \<Rightarrow>
                      (case skip_ws r2 of
                         [] \<Rightarrow> Inl SyntaxError
                       | d # ds \<Rightarrow>
                           if d = CHR '','' then parse_members n (set_property k v acc) ds
                           else if d = CHR ''}'' then Inr (set_property k v acc, ds)
                           else Inl SyntaxError))"
proof -
  obtain q qs where qs: "skip_ws s = q # qs"
    using assms by (cases "skip_ws s") (auto simp: parse_members.simps)
  then have l1: "length qs < length s" by (rule skip_ws_Cons_length)
  have q: "q = DQUOTE"
    using assms qs by (auto simp: parse_members.simps split: if_splits)
  obtain k r1 where pc: "parse_chars [] qs = Inr (k, r1)"
  proof (cases "parse_chars [] qs")
    case (Inl e)
    then have "res = Inl e" using assms(1) qs q by (simp add: parse_members.simps)
    moreover have "e \<noteq> OutOfFuel" using Inl parse_chars_fuel [of "[]" qs] by simp
    ultimately have False using assms(2,3) by (cases e) simp_all
    then show ?thesis ..
  next
    case (Inr p)
    with that show ?thesis by (cases p) simp
  qed
  then have l2: "length r1 < length qs" by (rule parse_chars_shorter)
  obtain c cs where cs: "skip_ws r1 = c # cs"
    using assms qs q pc by (cases "skip_ws r1") (auto simp: parse_members.simps)
  then have l3: "length cs < length r1" by (rule skip_ws_Cons_length)
  have c: "c = CHR '':''"
    using assms qs q pc cs by (auto simp: parse_members.simps split: if_splits)
  have "res = (case parse_value n cs of
                     Inl e \<Rightarrow> Inl e
                   | Inr (v, r2) \<Rightarrow>
                       (case skip_ws r2 of
                          [] \<Rightarrow> Inl SyntaxError
                        | d # ds \<Rightarrow>
                            if d = CHR '','' then parse_members n (set_property k v acc) ds
                            else if d = CHR ''}'' then Inr (set_property k v acc, ds)
                            else Inl SyntaxError))"
    using assms(1) qs q pc cs c by (simp add: parse_members.simps)
  moreover have "length cs < length s" using l1 l2 l3 by simp
  ultimately show ?thesis by blast
qed

lemma parse_members_Suc_Inr:
  assumes "parse_members (Suc n) acc s = Inr (kvs, r)"
  shows "\<exists>cs v r2 ds acc'. length cs < length s \<and> parse_value n cs = Inr (v, r2) \<and>
           length ds < length r2 \<and>
           (r = ds \<or> parse_members n acc' ds = Inr (kvs, r))"
proof -
  from parse_members_Suc_eq [OF assms]
  obtain k cs where len: "length cs < length s"
    and eq: "Inr (kvs, r) = (case parse_value n cs of
                    Inl e \<Rightarrow> Inl e
                  | Inr (v, r2) \<Rightarrow>
                      (case skip_ws r2 of
                         [] \<Rightarrow> Inl SyntaxError
                       | d # ds \<Rightarrow>
                           if d = CHR '','' then parse_members n (set_property k v acc) ds
                           else if d = CHR ''}'' then Inr (set_property k v acc, ds)
                           else Inl SyntaxError))"
    by auto
  obtain v r2 where pv: "parse_value n cs = Inr (v, r2)"
    using eq by (cases "parse_value n cs") auto
  obtain d ds where ds: "skip_ws r2 = d # ds"
    using eq pv by (cases "skip_ws r2") auto
  then have "length ds < length r2" by (rule skip_ws_Cons_length)
  moreover have "r = ds \<or> parse_members n (set_property k v acc) ds = Inr (kvs, r)"
    using eq pv ds by (auto split: if_splits)
  ultimately show ?thesis using len pv by blast
qed

lemma parse_members_Suc_fuel:
  assumes "parse_members (Suc n) acc s = Inl OutOfFuel"
  shows "\<exists>cs. length cs < length s \<and>
           (parse_value n cs = Inl OutOfFuel \<or>
            (\<exists>v r2 ds acc'. parse_value n cs = Inr (v, r2) \<and> length ds < length r2 \<and>
               parse_members n acc' ds = Inl OutOfFuel))"
proof -
  from parse_members_Suc_eq [OF assms]
  obtain k cs where len: "length cs < length s"
    and eq: "Inl OutOfFuel = (case parse_value n cs of
                    Inl e \<Rightarrow> Inl e
                  | Inr (v, r2) \<Rightarrow>
                      (case skip_ws r2 of
                         [] \<Rightarrow> Inl SyntaxError
                       | d # ds \<Rightarrow>
                           if d = CHR '','' then parse_members n (set_property k v acc) ds
                           else if d = CHR ''}'' then Inr (set_property k v acc, ds)
                           else Inl SyntaxError))"
    by auto
  show ?thesis
  proof (cases "parse_value n cs")
    case (Inl e)
    with eq len show ?thesis by auto
  next
    case (Inr p)
    obtain v r2 where p: "p = (v, r2)" by (cases p)
    obtain d ds where ds: "skip_ws r2 = d # ds"
      using eq Inr p by (cases "skip_ws r2") auto
    then have "length ds < length r2" by (rule skip_ws_Cons_length)
    moreover have "parse_members n (set_property k v acc) ds = Inl OutOfFuel"
      using eq Inr p ds by (auto split: if_splits)
    ultimately show ?thesis using len Inr p by blast
  qed
qed

lemma parse_value_Suc_fuel:
  assumes "parse_value (Suc n) s = Inl OutOfFuel"
  shows "\<exists>cs. length cs < length s \<and>
           (parse_elements n [] cs = Inl OutOfFuel \<or> parse_members n [] cs = Inl OutOfFuel)"
proof -
  obtain c cs where cs: "skip_ws s = c # cs"
    using assms by (cases "skip_ws s") (auto simp: parse_value.simps)
  then have len: "length cs < length s" by (rule skip_ws_Cons_length)
  consider (arr) "c = CHR ''[''" | (obj) "c = CHR ''{''"
    | (scalar) "c \<noteq> CHR ''[''" "c \<noteq> CHR ''{''"
    by blast
  then have "parse_elements n [] cs = Inl OutOfFuel \<or> parse_members n [] cs = Inl OutOfFuel"
  proof cases
    case arr
    then obtain d ds where ds: "skip_ws cs = d # ds"
      using assms cs by (cases "skip_ws cs") (auto simp: parse_value.simps)
    then show ?thesis
      using assms cs arr by (auto simp: parse_value.simps split: if_splits sum.splits)
  next
    case obj
    then obtain d ds where ds: "skip_ws cs = d # ds"
      using assms cs by (cases "skip_ws cs") (auto simp: parse_value.simps)
    then show ?thesis
      using assms cs obj by (auto simp: parse_value.simps split: if_splits sum.splits)
  next
    case scalar
    with assms cs have "parse_scalar (c # cs) = Inl OutOfFuel"
      by (simp add: parse_value.simps)
    then show ?thesis using parse_scalar_fuel by blast
  qed
  with len show ?thesis by blast
qed

lemma parse_elements_Suc_fuel:
  assumes "parse_elements (Suc n) acc s = Inl OutOfFuel"
  shows "parse_value n s = Inl OutOfFuel \<or>
         (\<exists>v r1 cs. parse_value n s = Inr (v, r1) \<and> length cs < length r1 \<and>
            parse_elements n (acc @ [v]) cs = Inl OutOfFuel)"
proof (cases "parse_value n s")
  case (Inl e)
  with assms show ?thesis by (simp add: parse_elements.simps)
next
  case (Inr p)
  obtain v r1 where p: "p = (v, r1)" by (cases p)
  obtain c cs where cs: "skip_ws r1 = c # cs"
    using assms Inr p by (cases "skip_ws r1") (auto simp: parse_elements.simps)
  then have "length cs < length r1" by (rule skip_ws_Cons_length)
  moreover have "parse_elements n (acc @ [v]) cs = Inl OutOfFuel"
    using assms Inr p cs by (auto simp: parse_elements.simps split: if_splits)
  ultimately show ?thesis using Inr p by blast
qed

lemma parse_shorter_all:
  "(\<forall>s v r. parse_value n s = Inr (v, r) \<longrightarrow> length r < length s) \<and>
   (\<forall>acc s xs r. parse_elements n acc s = Inr (xs, r) \<longrightarrow> length r < length s) \<and>
   (\<forall>acc s kvs r. parse_members n acc s = Inr (kvs, r) \<longrightarrow> length r < length s)"
proof (induction n)
  case 0
  show ?case by (simp add: parse_value.simps parse_elements.simps parse_members.simps)
next
  case (Suc n)
  have val: "length r < length s" if "parse_value (Suc n) s = Inr (v, r)" for s v r
    using parse_value_Suc_Inr [OF that] Suc.IH by (metis le_less_trans less_trans)
  have elems: "length r < length s" if "parse_elements (Suc n) acc s = Inr (xs, r)" for acc s xs r
  proof -
    from parse_elements_Suc_Inr [OF that]
    obtain v r1 cs where "parse_value n s = Inr (v, r1)" "length cs < length r1"
      "r = cs \<or> parse_elements n (acc @ [v]) cs = Inr (xs, r)" by blast
    moreover from this have "length r1 < length s" using Suc.IH by blast
    moreover have "length r \<le> length cs"
      using calculation(3) Suc.IH by (auto simp: less_imp_le)
    ultimately show ?thesis by simp
  qed
  have membs: "length r < length s" if "parse_members (Suc n) acc s = Inr (kvs, r)" for acc s kvs r
  proof -
    from parse_members_Suc_Inr [OF that]
    obtain cs v r2 ds acc' where "length cs < length s" "parse_value n cs = Inr (v, r2)"
      "length ds < length r2" "r = ds \<or> parse_members n acc' ds = Inr (kvs, r)" by blast
    moreover from this have "length r2 < length cs" using Suc.IH by blast
    moreover have "length r \<le> length ds"
      using calculation(4) Suc.IH by (auto simp: less_imp_le)
    ultimately show ?thesis by simp
  qed
  from val elems membs show ?case by blast
qed

lemma parse_value_shorter: "parse_value n s = Inr (v, r) \<Longrightarrow> length r < length s"
  using parse_shorter_all by blast

lemma parse_fuel_all:
  "(\<forall>s. 2 * length s < n \<longrightarrow> parse_value n s \<noteq> Inl OutOfFuel) \<and>
   (\<forall>acc s. 2 * length s + 1 < n \<longrightarrow> parse_elements n acc s \<noteq> Inl OutOfFuel) \<and>
   (\<forall>acc s. 2 * length s + 1 < n \<longrightarrow> parse_members n acc s \<noteq> Inl OutOfFuel)"
proof (induction n)
  case 0
  show ?case by simp
next
  case (Suc n)
  have val: "parse_value (Suc n) s \<noteq> Inl OutOfFuel" if "2 * length s < Suc n" for s
  proof
    assume "parse_value (Suc n) s = Inl OutOfFuel"
    from parse_value_Suc_fuel [OF this]
    obtain cs where "length cs < length s"
      "parse_elements n [] cs = Inl OutOfFuel \<or> parse_members n [] cs = Inl OutOfFuel"
      by blast
    moreover from this that have "2 * length cs + 1 < n" by simp
    ultimately show False using Suc.IH by blast
  qed
  have elems: "parse_elements (Suc n) acc s \<noteq> Inl OutOfFuel"
    if "2 * length s + 1 < Suc n" for acc s
  proof
    assume "parse_elements (Suc n) acc s = Inl OutOfFuel"
    from parse_elements_Suc_fuel [OF this]
    consider "parse_value n s = Inl OutOfFuel"
      | v r1 cs where "parse_value n s = Inr (v, r1)" "length cs < length r1"
          "parse_elements n (acc @ [v]) cs = Inl OutOfFuel"
      by blast
    then show False
    proof cases
      case 1
      moreover have "2 * length s < n" using that by simp
      ultimately show False using Suc.IH by blast
    next
      case 2
      then have "length r1 < length s" by (intro parse_value_shorter)
      with 2 that have "2 * length cs + 1 < n" by simp
      with 2 show False using Suc.IH by blast
    qed
  qed
  have membs: "parse_members (Suc n) acc s \<noteq> Inl OutOfFuel"
    if "2 * length s + 1 < Suc n" for acc s
  proof
    assume "parse_members (Suc n) acc s = Inl OutOfFuel"
    from parse_members_Suc_fuel [OF this]
    obtain cs where cs: "length cs < length s"
      and alt: "parse_value n cs = Inl OutOfFuel \<or>
        (\<exists>v r2 ds acc'. parse_value n cs = Inr (v, r2) \<and> length ds < length r2 \<and>
           parse_members n acc' ds = Inl OutOfFuel)"
      by blast
    from alt show False
    proof
      assume "parse_value n cs = Inl OutOfFuel"
      moreover have "2 * length cs < n" using that cs by simp
      ultimately show False using Suc.IH by blast
    next
      assume "\<exists>v r2 ds acc'. parse_value n cs = Inr (v, r2) \<and> length ds < length r2 \<and>
           parse_members n acc' ds = Inl OutOfFuel"
      then obtain v r2 ds acc' where pv: "parse_value n cs = Inr (v, r2)"
        and ds: "length ds < length r2"
        and pm: "parse_members n acc' ds = Inl OutOfFuel" by blast
      from pv have "length r2 < length cs" by (rule parse_value_shorter)
      with ds cs that have "2 * length ds + 1 < n" by simp
      with pm show False using Suc.IH by blast
    qed
  qed
  from val elems membs show ?case by blast
qed

lemma JSON_parse_never_out_of_fuel: "JSON_parse text \<noteq> Inl OutOfFuel"
proof -
  have "parse_value (2 * length (ToString text) + 2) (ToString text) \<noteq> Inl OutOfFuel"
    using parse_fuel_all [of "2 * length (ToString text) + 2"] by simp
  then show ?thesis
    by (auto simp: JSON_parse_def Let_def split: sum.splits)
qed

section \<open>What a run computes\<close>

subsection \<open>The payload\<close>

declare Array_from_loop.simps [simp del]

lemma Array_from_loop_eq:
  "k \<le> len \<Longrightarrow> Array_from_loop len k mapFn A = A @ map (\<lambda>i. mapFn (int i)) [k..<len]"
proof (induction len k mapFn A rule: Array_from_loop.induct)
  case (1 len k mapFn A)
  show ?case
  proof (cases "k < len")
    case True
    then have "Array_from_loop len k mapFn A
        = Array_from_loop len (Suc k) mapFn (A @ [mapFn (int k)])"
      by (simp add: Array_from_loop.simps [of len k])
    also have "\<dots> = (A @ [mapFn (int k)]) @ map (\<lambda>i. mapFn (int i)) [Suc k..<len]"
      using True by (intro "1.IH") simp_all
    also have "\<dots> = A @ map (\<lambda>i. mapFn (int i)) [k..<len]"
      using True by (simp add: upt_conv_Cons)
    finally show ?thesis .
  next
    case False
    with "1.prems" have "k = len" by simp
    then show ?thesis by (simp add: Array_from_loop.simps [of len len])
  qed
qed

lemma data_eq: "data sz = JArr (map (\<lambda>i. payload_item (int i)) [0..<nat sz])"
  by (simp add: data_def Array_from_def Array_from_loop_eq)

lemma data_0: "data 0 = JArr []"
  by (simp add: data_eq)

lemma data_items:
  assumes "0 \<le> n"
  shows "\<exists>xs. data n = JArr xs \<and> int (length xs) = n \<and>
           (\<forall>i. 0 \<le> i \<and> i < n \<longrightarrow>
              xs ! nat i = JObj [(''id'', JNum i),
                                 (''value'', JStr (''Data '' @ Number_toString i))])"
proof -
  let ?xs = "map (\<lambda>i. payload_item (int i)) [0..<nat n]"
  have "data n = JArr ?xs" by (rule data_eq)
  moreover have "int (length ?xs) = n" using assms by simp
  moreover have "\<forall>i. 0 \<le> i \<and> i < n \<longrightarrow>
      ?xs ! nat i = JObj [(''id'', JNum i), (''value'', JStr (''Data '' @ Number_toString i))]"
    by (auto simp: payload_item_def)
  ultimately show ?thesis by blast
qed

lemma wf_elements_all: "(\<And>x. x \<in> set xs \<Longrightarrow> wf_json x) \<Longrightarrow> wf_elements xs"
  by (induction xs) simp_all

lemma wf_payload_item: "wf_json (payload_item i)"
  by (simp add: payload_item_def)

lemma wf_data: "wf_json (data sz)"
  unfolding data_eq by (auto intro!: wf_elements_all simp: wf_payload_item)

lemma data_roundtrip: "JSON_parse (String (JSON_stringify (data sz))) = Inr (data sz)"
  by (rule JSON_parse_stringify) (rule wf_data)

lemma stringify_data_0: "JSON_stringify (data 0) = ''[]''"
  by (simp add: data_0)

lemma parse_empty_array: "JSON_parse (String ''[]'') = Inr (JArr [])"
  using data_roundtrip [of 0] by (simp add: data_0)

lemma JSON_parse_Null: "JSON_parse Null = Inr JNull"
  by (simp add: JSON_parse_def parse_value.simps parse_scalar_def skip_ws_def is_ws_def)

lemma JSON_parse_Undefined: "JSON_parse Undefined = Inl SyntaxError"
  by (simp add: JSON_parse_def parse_value.simps parse_scalar_def skip_ws_def is_ws_def
      is_digit_def)

subsection \<open>The run, in closed form\<close>

text \<open>
  Every run succeeds. Its four timings are the differences of the eight clock readings
  it takes, in pairs; both reads return the payload; the two stores hold the serialised
  payload under the two keys.
\<close>

lemma timedCalls_eq:
  "timedCalls sz w =
     (Inr (clock w (ticks w + 1) - clock w (ticks w),
           \<lparr>time = clock w (ticks w + 3) - clock w (ticks w + 2), value' = data sz\<rparr>,
           clock w (ticks w + 5) - clock w (ticks w + 4),
           \<lparr>time = clock w (ticks w + 7) - clock w (ticks w + 6), value' = data sz\<rparr>),
      w\<lparr>ticks := ticks w + 8,
        AsyncStorage := (AsyncStorage w)(''asyncKey'' \<mapsto> JSON_stringify (data sz)),
        storage := (storage w)(''mmkvKey'' \<mapsto> JSON_stringify (data sz)),
        calls := calls w @ calls_of_run\<rparr>)"
  by (simp add: timedCalls_def asyncStorageWrite_def asyncStorageRead_def mmkvWrite_def
      mmkvRead_def performance_now_def AsyncStorage_setItem_def AsyncStorage_getItem_def
      storage_set_def storage_getString_def data_roundtrip calls_of_run_def Let_def
      numeral_eq_Suc)

lemma runBenchmark_eq:
  "runBenchmark sz w =
     (let aw = clock w (ticks w + 1) - clock w (ticks w);
          ar = clock w (ticks w + 3) - clock w (ticks w + 2);
          mw = clock w (ticks w + 5) - clock w (ticks w + 4);
          mr = clock w (ticks w + 7) - clock w (ticks w + 6)
      in (Inr \<lparr>size' = sz, asyncWriteTime = aw, asyncReadTime = ar,
                mmkvWriteTime = mw, mmkvReadTime = mr,
                writeDifference = \<bar>aw - mw\<bar>, readDifference = \<bar>ar - mr\<bar>,
                asyncAvg = (aw + ar) / 2, mmkvAvg = (mw + mr) / 2\<rparr>,
          w\<lparr>ticks := ticks w + 8,
            AsyncStorage := (AsyncStorage w)(''asyncKey'' \<mapsto> JSON_stringify (data sz)),
            storage := (storage w)(''mmkvKey'' \<mapsto> JSON_stringify (data sz)),
            console := console w @
              [[LogStr ''AsyncStorage Read: '', LogNum ar, LogStr ''MMKV Read: '', LogNum mr],
               [LogStr ''AsyncStorage Write: '', LogNum aw, LogStr ''MMKV Write: '', LogNum mw]],
            calls := calls w @ calls_of_run @ [ConsoleLog, ConsoleLog]\<rparr>))"
  by (simp add: runBenchmark_def timedCalls_eq console_log_def Let_def)

lemma runBenchmark_part_000_eq:
  "runBenchmark_part_000 sz w =
     (let aw = clock w (ticks w + 1) - clock w (ticks w);
          ar = clock w (ticks w + 3) - clock w (ticks w + 2);
          mw = clock w (ticks w + 5) - clock w (ticks w + 4);
          mr = clock w (ticks w + 7) - clock w (ticks w + 6)
      in (Inr \<lparr>size' = sz, asyncWriteTime = aw, asyncReadTime = ar,
                mmkvWriteTime = mw, mmkvReadTime = mr,
                writeDifference = \<bar>aw - mw\<bar>, readDifference = \<bar>ar - mr\<bar>,
                writePercentageDifference =
                  (if aw < mw then js_times (js_divide \<bar>aw - mw\<bar> aw) 100
                   else js_times (js_divide \<bar>aw - mw\<bar> mw) 100),
                readPercentageDifference =
                  (if ar < mr then js_times (js_divide \<bar>ar - mr\<bar> ar) 100
                   else js_times (js_divide \<bar>ar - mr\<bar> mr) 100)\<rparr>,
          w\<lparr>ticks := ticks w + 8,
            AsyncStorage := (AsyncStorage w)(''asyncKey'' \<mapsto> JSON_stringify (data sz)),
            storage := (storage w)(''mmkvKey'' \<mapsto> JSON_stringify (data sz)),
            calls := calls w @ calls_of_run\<rparr>))"
  by (simp add: runBenchmark_part_000_def timedCalls_eq Let_def)

section \<open>The claims\<close>

text \<open>
  C1. Every run returns a result, and in it \<open>writeDifference\<close> is the absolute value of
  the difference of the two write times and \<open>readDifference\<close> the absolute value of the
  difference of the two read times. This holds for both versions of \<^verbatim>\<open>runBenchmark\<close>.
\<close>

theorem differences_are_absolute:
  "(\<exists>r w'. runBenchmark sz w = (Inr r, w') \<and>
       writeDifference r = \<bar>asyncWriteTime r - mmkvWriteTime r\<bar> \<and>
       readDifference r = \<bar>asyncReadTime r - mmkvReadTime r\<bar>) \<and>
   (\<exists>r w'. runBenchmark_part_000 sz w = (Inr r, w') \<and>
       writeDifference r = \<bar>asyncWriteTime r - mmkvWriteTime r\<bar> \<and>
       readDifference r = \<bar>asyncReadTime r - mmkvReadTime r\<bar>)"
  by (simp add: runBenchmark_eq runBenchmark_part_000_eq Let_def)

text \<open>
  C2. For a size \<open>n \<ge> 0\<close> the payload is an array of exactly \<open>n\<close> items, and the item at
  index \<open>i\<close> is the object with \<^verbatim>\<open>id\<close> equal to \<open>i\<close> and \<^verbatim>\<open>value\<close> equal to the string
  \<^verbatim>\<open>Data\<close>, a space and the decimal digits of \<open>i\<close>. The payload is a function of the size
  alone.
\<close>

theorem payload_is_indexed:
  assumes "0 \<le> n"
  shows "\<exists>xs. data n = JArr xs \<and> int (length xs) = n \<and>
           (\<forall>i. 0 \<le> i \<and> i < n \<longrightarrow>
              xs ! nat i = JObj [(''id'', JNum i),
                                 (''value'', JStr (''Data '' @ Number_toString i))])"
  using assms by (rule data_items)

text \<open>The payload of size 2, by C2 and by evaluation.\<close>

theorem payload_is_indexed_witness:
  "(0::int) \<le> 2 \<and>
   (\<exists>xs. data 2 = JArr xs \<and> int (length xs) = 2 \<and>
      (\<forall>i. 0 \<le> i \<and> i < 2 \<longrightarrow>
         xs ! nat i = JObj [(''id'', JNum i),
                            (''value'', JStr (''Data '' @ Number_toString i))])) \<and>
   data 2 = JArr [JObj [(''id'', JNum 0), (''value'', JStr ''Data 0'')],
                  JObj [(''id'', JNum 1), (''value'', JStr ''Data 1'')]]"
proof -
  have h: "(0::int) \<le> 2" by simp
  have "data 2 = JArr [JObj [(''id'', JNum 0), (''value'', JStr ''Data 0'')],
                       JObj [(''id'', JNum 1), (''value'', JStr ''Data 1'')]]"
    by code_simp
  with h payload_is_indexed [OF h] show ?thesis by simp
qed

text \<open>
  C3. Round trip: for a size \<open>n \<ge> 0\<close> the run stores the \<^verbatim>\<open>JSON.stringify\<close> text of the
  payload under \<^verbatim>\<open>asyncKey\<close> in AsyncStorage and under \<^verbatim>\<open>mmkvKey\<close> in the MMKV store;
  \<^verbatim>\<open>JSON.parse\<close> of that text succeeds, and the value each of the two reads returns is an
  array of length \<open>n\<close> whose item at index \<open>i\<close> has \<^verbatim>\<open>id\<close> \<open>i\<close> and \<^verbatim>\<open>value\<close>
  \<^verbatim>\<open>"Data " + i\<close>.
\<close>

theorem read_back_is_payload:
  assumes "0 \<le> n"
  shows "\<exists>aw ar mw mr w' xs.
           timedCalls n w = (Inr (aw, ar, mw, mr), w') \<and>
           AsyncStorage w' ''asyncKey'' = Some (JSON_stringify (data n)) \<and>
           storage w' ''mmkvKey'' = Some (JSON_stringify (data n)) \<and>
           JSON_parse (String (JSON_stringify (data n))) = Inr (JArr xs) \<and>
           value' ar = JArr xs \<and> value' mr = JArr xs \<and>
           int (length xs) = n \<and>
           (\<forall>i. 0 \<le> i \<and> i < n \<longrightarrow>
              xs ! nat i = JObj [(''id'', JNum i),
                                 (''value'', JStr (''Data '' @ Number_toString i))])"
proof -
  obtain xs where xs: "data n = JArr xs" and len: "int (length xs) = n"
    and items: "\<forall>i. 0 \<le> i \<and> i < n \<longrightarrow>
      xs ! nat i = JObj [(''id'', JNum i), (''value'', JStr (''Data '' @ Number_toString i))]"
    using data_items [OF assms] by blast
  have "JSON_parse (String (JSON_stringify (data n))) = Inr (JArr xs)"
    using data_roundtrip [of n] xs by simp
  with xs len items show ?thesis
    unfolding timedCalls_eq by (intro exI conjI) (rule refl, simp_all)
qed

text \<open>The round trip of the payload of size 1, from the state \<open>world0\<close>.\<close>

theorem read_back_is_payload_witness:
  "(0::int) \<le> 1 \<and>
   (\<exists>aw ar mw mr w' xs.
      timedCalls 1 world0 = (Inr (aw, ar, mw, mr), w') \<and>
      AsyncStorage w' ''asyncKey'' = Some (JSON_stringify (data 1)) \<and>
      storage w' ''mmkvKey'' = Some (JSON_stringify (data 1)) \<and>
      JSON_parse (String (JSON_stringify (data 1))) = Inr (JArr xs) \<and>
      value' ar = JArr xs \<and> value' mr = JArr xs \<and>
      int (length xs) = 1 \<and>
      (\<forall>i. 0 \<le> i \<and> i < 1 \<longrightarrow>
         xs ! nat i = JObj [(''id'', JNum i),
                            (''value'', JStr (''Data '' @ Number_toString i))]))"
proof -
  have h: "(0::int) \<le> 1" by simp
  from h read_back_is_payload [OF h, of world0] show ?thesis by blast
qed

text \<open>
  C4, as the code has it. A read of a key that was never written fails in one backend
  only. \<open>mmkvRead\<close> gets \<^verbatim>\<open>undefined\<close> from \<^verbatim>\<open>storage.getString\<close>, and
  \<^verbatim>\<open>JSON.parse(undefined)\<close> throws a \<open>SyntaxError\<close>. \<open>asyncStorageRead\<close> gets
  \<^verbatim>\<open>null\<close> from \<^verbatim>\<open>AsyncStorage.getItem\<close>, and \<^verbatim>\<open>JSON.parse(null)\<close> is \<^verbatim>\<open>null\<close>:
  the read returns a result whose value is \<^verbatim>\<open>null\<close>.
\<close>

theorem read_of_unwritten_key:
  "(storage w key = None \<longrightarrow> fst (mmkvRead key w) = Inl SyntaxError) \<and>
   (AsyncStorage w key = None \<longrightarrow>
      (\<exists>t. fst (asyncStorageRead key w) = Inr \<lparr>time = t, value' = JNull\<rparr>))"
  by (simp add: mmkvRead_def asyncStorageRead_def performance_now_def
      storage_getString_def AsyncStorage_getItem_def JSON_parse_Null JSON_parse_Undefined)

text \<open>Both reads of the key \<^verbatim>\<open>mmkvKey\<close> in the state \<open>world0\<close>, where nothing is stored.\<close>

theorem read_of_unwritten_key_witness:
  "storage world0 ''mmkvKey'' = None \<and>
   fst (mmkvRead ''mmkvKey'' world0) = Inl SyntaxError \<and>
   AsyncStorage world0 ''mmkvKey'' = None \<and>
   (\<exists>t. fst (asyncStorageRead ''mmkvKey'' world0) = Inr \<lparr>time = t, value' = JNull\<rparr>)"
  using read_of_unwritten_key [of world0 "''mmkvKey''"] by (simp add: world0_def)

text \<open>
  C4 as it is stated fails: in \<open>world0\<close> the key \<^verbatim>\<open>asyncKey\<close> was never written, and
  \<open>asyncStorageRead\<close> returns a result with the payload \<^verbatim>\<open>null\<close>.
\<close>

theorem asyncStorageRead_unwritten_succeeds:
  "AsyncStorage world0 ''asyncKey'' = None \<and>
   fst (asyncStorageRead ''asyncKey'' world0) = Inr \<lparr>time = 1, value' = JNull\<rparr>"
  by (simp add: world0_def asyncStorageRead_def performance_now_def
      AsyncStorage_getItem_def JSON_parse_Null)

text \<open>
  C5. The run of size 0 succeeds, from any state. The payload generated is the empty
  array, and its \<^verbatim>\<open>JSON.stringify\<close> text is \<^verbatim>\<open>[]\<close>. The run writes that text
  under \<^verbatim>\<open>asyncKey\<close> in AsyncStorage and under \<^verbatim>\<open>mmkvKey\<close> in the MMKV store, by the
  four timed operations in their order; \<^verbatim>\<open>JSON.parse\<close> of the text is the empty array,
  and it is what each of the two reads returns. In the result, of either version, the
  four timings are the differences of the clock readings around the four operations, and
  the two differences are the absolute differences of the timings.
\<close>

theorem run_of_size_zero:
  "data 0 = JArr [] \<and>
   JSON_stringify (data 0) = ''[]'' \<and>
   JSON_parse (String ''[]'') = Inr (JArr []) \<and>
   (\<exists>aw ar mw mr w'. timedCalls 0 w = (Inr (aw, ar, mw, mr), w') \<and>
      AsyncStorage w' ''asyncKey'' = Some ''[]'' \<and>
      storage w' ''mmkvKey'' = Some ''[]'' \<and>
      value' ar = JArr [] \<and> value' mr = JArr [] \<and>
      calls w' = calls w @
        [PerformanceNow, AsyncSetItem ''asyncKey'', PerformanceNow,
         PerformanceNow, AsyncGetItem ''asyncKey'', PerformanceNow,
         PerformanceNow, MmkvSet ''mmkvKey'', PerformanceNow,
         PerformanceNow, MmkvGetString ''mmkvKey'', PerformanceNow]) \<and>
   (\<exists>r w'. runBenchmark 0 w = (Inr r, w') \<and>
      AsyncStorage w' ''asyncKey'' = Some ''[]'' \<and>
      storage w' ''mmkvKey'' = Some ''[]'' \<and>
      size' r = 0 \<and>
      asyncWriteTime r = clock w (ticks w + 1) - clock w (ticks w) \<and>
      asyncReadTime r = clock w (ticks w + 3) - clock w (ticks w + 2) \<and>
      mmkvWriteTime r = clock w (ticks w + 5) - clock w (ticks w + 4) \<and>
      mmkvReadTime r = clock w (ticks w + 7) - clock w (ticks w + 6) \<and>
      writeDifference r = \<bar>asyncWriteTime r - mmkvWriteTime r\<bar> \<and>
      readDifference r = \<bar>asyncReadTime r - mmkvReadTime r\<bar>) \<and>
   (\<exists>r w'. runBenchmark_part_000 0 w = (Inr r, w') \<and>
      AsyncStorage w' ''asyncKey'' = Some ''[]'' \<and>
      storage w' ''mmkvKey'' = Some ''[]'' \<and>
      size' r = 0 \<and>
      asyncWriteTime r = clock w (ticks w + 1) - clock w (ticks w) \<and>
      asyncReadTime r = clock w (ticks w + 3) - clock w (ticks w + 2) \<and>
      mmkvWriteTime r = clock w (ticks w + 5) - clock w (ticks w + 4) \<and>
      mmkvReadTime r = clock w (ticks w + 7) - clock w (ticks w + 6) \<and>
      writeDifference r = \<bar>asyncWriteTime r - mmkvWriteTime r\<bar> \<and>
      readDifference r = \<bar>asyncReadTime r - mmkvReadTime r\<bar>)"
proof (intro conjI)
  show "data 0 = JArr []" by (rule data_0)
  show "JSON_stringify (data 0) = ''[]''" by (rule stringify_data_0)
  show "JSON_parse (String ''[]'') = Inr (JArr [])" by (rule parse_empty_array)
  show "\<exists>aw ar mw mr w'. timedCalls 0 w = (Inr (aw, ar, mw, mr), w') \<and>
      AsyncStorage w' ''asyncKey'' = Some ''[]'' \<and>
      storage w' ''mmkvKey'' = Some ''[]'' \<and>
      value' ar = JArr [] \<and> value' mr = JArr [] \<and>
      calls w' = calls w @
        [PerformanceNow, AsyncSetItem ''asyncKey'', PerformanceNow,
         PerformanceNow, AsyncGetItem ''asyncKey'', PerformanceNow,
         PerformanceNow, MmkvSet ''mmkvKey'', PerformanceNow,
         PerformanceNow, MmkvGetString ''mmkvKey'', PerformanceNow]"
    by (simp add: timedCalls_eq stringify_data_0 data_0 calls_of_run_def)
  show "\<exists>r w'. runBenchmark 0 w = (Inr r, w') \<and>
      AsyncStorage w' ''asyncKey'' = Some ''[]'' \<and>
      storage w' ''mmkvKey'' = Some ''[]'' \<and>
      size' r = 0 \<and>
      asyncWriteTime r = clock w (ticks w + 1) - clock w (ticks w) \<and>
      asyncReadTime r = clock w (ticks w + 3) - clock w (ticks w + 2) \<and>
      mmkvWriteTime r = clock w (ticks w + 5) - clock w (ticks w + 4) \<and>
      mmkvReadTime r = clock w (ticks w + 7) - clock w (ticks w + 6) \<and>
      writeDifference r = \<bar>asyncWriteTime r - mmkvWriteTime r\<bar> \<and>
      readDifference r = \<bar>asyncReadTime r - mmkvReadTime r\<bar>"
    by (simp add: runBenchmark_eq stringify_data_0 Let_def)
  show "\<exists>r w'. runBenchmark_part_000 0 w = (Inr r, w') \<and>
      AsyncStorage w' ''asyncKey'' = Some ''[]'' \<and>
      storage w' ''mmkvKey'' = Some ''[]'' \<and>
      size' r = 0 \<and>
      asyncWriteTime r = clock w (ticks w + 1) - clock w (ticks w) \<and>
      asyncReadTime r = clock w (ticks w + 3) - clock w (ticks w + 2) \<and>
      mmkvWriteTime r = clock w (ticks w + 5) - clock w (ticks w + 4) \<and>
      mmkvReadTime r = clock w (ticks w + 7) - clock w (ticks w + 6) \<and>
      writeDifference r = \<bar>asyncWriteTime r - mmkvWriteTime r\<bar> \<and>
      readDifference r = \<bar>asyncReadTime r - mmkvReadTime r\<bar>"
    by (simp add: runBenchmark_part_000_eq stringify_data_0 Let_def)
qed

text \<open>
  C6. A run calls its environment in one fixed order: for the write to AsyncStorage, the
  read from AsyncStorage, the write to MMKV and the read from MMKV, in this order, a clock
  reading, the operation, a clock reading. Each timing is the difference of the two
  readings around its own operation, so the timer of an operation starts after the
  operation before it has completed. The version of \<^verbatim>\<open>src/App.tsx\<close> logs two lines after
  the four operations; the other version calls nothing more.
\<close>

theorem calls_in_sequence:
  "(\<exists>aw ar mw mr w'.
      timedCalls n w = (Inr (aw, ar, mw, mr), w') \<and>
      calls w' = calls w @
        [PerformanceNow, AsyncSetItem ''asyncKey'', PerformanceNow,
         PerformanceNow, AsyncGetItem ''asyncKey'', PerformanceNow,
         PerformanceNow, MmkvSet ''mmkvKey'', PerformanceNow,
         PerformanceNow, MmkvGetString ''mmkvKey'', PerformanceNow] \<and>
      aw = clock w (ticks w + 1) - clock w (ticks w) \<and>
      time ar = clock w (ticks w + 3) - clock w (ticks w + 2) \<and>
      mw = clock w (ticks w + 5) - clock w (ticks w + 4) \<and>
      time mr = clock w (ticks w + 7) - clock w (ticks w + 6)) \<and>
   calls (snd (runBenchmark n w)) = calls (snd (timedCalls n w)) @ [ConsoleLog, ConsoleLog] \<and>
   calls (snd (runBenchmark_part_000 n w)) = calls (snd (timedCalls n w))"
  by (simp add: timedCalls_eq runBenchmark_eq runBenchmark_part_000_eq calls_of_run_def Let_def)

text \<open>
  C7. With a clock that never goes back, as \<^verbatim>\<open>performance.now\<close> is, the four timings
  of the result are greater than or equal to zero, for every size and in both versions.
\<close>

theorem timings_nonnegative:
  assumes "mono (clock w)"
  shows "(\<exists>r w'. runBenchmark n w = (Inr r, w') \<and>
            0 \<le> asyncWriteTime r \<and> 0 \<le> asyncReadTime r \<and>
            0 \<le> mmkvWriteTime r \<and> 0 \<le> mmkvReadTime r) \<and>
         (\<exists>r w'. runBenchmark_part_000 n w = (Inr r, w') \<and>
            0 \<le> asyncWriteTime r \<and> 0 \<le> asyncReadTime r \<and>
            0 \<le> mmkvWriteTime r \<and> 0 \<le> mmkvReadTime r)"
proof -
  have step: "clock w i \<le> clock w j" if "i \<le> j" for i j
    using assms that by (rule monoD)
  have "clock w (ticks w) \<le> clock w (ticks w + 1)"
    and "clock w (ticks w + 2) \<le> clock w (ticks w + 3)"
    and "clock w (ticks w + 4) \<le> clock w (ticks w + 5)"
    and "clock w (ticks w + 6) \<le> clock w (ticks w + 7)"
    by (rule step, simp)+
  then show ?thesis
    by (simp add: runBenchmark_eq runBenchmark_part_000_eq Let_def)
qed

text \<open>The run of size 1 from \<open>world0\<close>, whose clock advances at every reading.\<close>

theorem timings_nonnegative_witness:
  "mono (clock world0) \<and>
   (\<exists>r w'. runBenchmark 1 world0 = (Inr r, w') \<and>
      0 \<le> asyncWriteTime r \<and> 0 \<le> asyncReadTime r \<and>
      0 \<le> mmkvWriteTime r \<and> 0 \<le> mmkvReadTime r) \<and>
   (\<exists>r w'. runBenchmark_part_000 1 world0 = (Inr r, w') \<and>
      0 \<le> asyncWriteTime r \<and> 0 \<le> asyncReadTime r \<and>
      0 \<le> mmkvWriteTime r \<and> 0 \<le> mmkvReadTime r)"
proof -
  have h: "mono (clock world0)" by (simp add: world0_def mono_def)
  from h timings_nonnegative [OF h, of 1] show ?thesis by simp
qed

text \<open>
  C8, as the code has it. A run changes the two stores, which are global: AsyncStorage
  and the MMKV instance of the module. It sets the entry \<^verbatim>\<open>asyncKey\<close> of the first and
  the entry \<^verbatim>\<open>mmkvKey\<close> of the second to the serialised payload and leaves every other
  entry as it was. The version of \<^verbatim>\<open>src/App.tsx\<close> adds two lines to the console. The
  clock is not changed. \<^verbatim>\<open>handleRunTests\<close> changes nothing more and appends the result
  of the run to the history.
\<close>

theorem run_changes_stores_and_history:
  "(\<exists>r. fst (runBenchmark n w) = Inr r \<and>
      fst (handleRunTests n results w) = Inr (results @ [r]) \<and>
      snd (handleRunTests n results w) = snd (runBenchmark n w)) \<and>
   clock (snd (runBenchmark n w)) = clock w \<and>
   AsyncStorage (snd (runBenchmark n w)) =
     (AsyncStorage w)(''asyncKey'' \<mapsto> JSON_stringify (data n)) \<and>
   storage (snd (runBenchmark n w)) =
     (storage w)(''mmkvKey'' \<mapsto> JSON_stringify (data n)) \<and>
   (\<exists>line1 line2. console (snd (runBenchmark n w)) = console w @ [line1, line2]) \<and>
   (\<exists>r. fst (runBenchmark_part_000 n w) = Inr r \<and>
      fst (handleRunTests_part_000 n results' w) = Inr (results' @ [r]) \<and>
      snd (handleRunTests_part_000 n results' w) = snd (runBenchmark_part_000 n w)) \<and>
   clock (snd (runBenchmark_part_000 n w)) = clock w \<and>
   AsyncStorage (snd (runBenchmark_part_000 n w)) =
     (AsyncStorage w)(''asyncKey'' \<mapsto> JSON_stringify (data n)) \<and>
   storage (snd (runBenchmark_part_000 n w)) =
     (storage w)(''mmkvKey'' \<mapsto> JSON_stringify (data n)) \<and>
   console (snd (runBenchmark_part_000 n w)) = console w"
  by (simp add: handleRunTests_def handleRunTests_part_000_def
      runBenchmark_eq runBenchmark_part_000_eq Let_def)

text \<open>
  C8 as it is stated fails: the run of size 0 from \<open>world0\<close> leaves the text \<^verbatim>\<open>[]\<close>
  under \<^verbatim>\<open>mmkvKey\<close> in the global MMKV store and under \<^verbatim>\<open>asyncKey\<close> in AsyncStorage,
  where there was nothing before.
\<close>

theorem run_mutates_global_stores:
  "storage world0 ''mmkvKey'' = None \<and>
   storage (snd (handleRunTests 0 [] world0)) ''mmkvKey'' = Some ''[]'' \<and>
   AsyncStorage world0 ''asyncKey'' = None \<and>
   AsyncStorage (snd (handleRunTests 0 [] world0)) ''asyncKey'' = Some ''[]''"
  by (simp add: handleRunTests_def runBenchmark_eq Let_def data_0 world0_def)

text \<open>
  C9. In the version of \<^verbatim>\<open>src/unnamed/part_000\<close> each percentage is the difference
  divided by the smaller of the two timings, times 100.
\<close>

theorem percentage_divides_by_smaller:
  "\<exists>r w'. runBenchmark_part_000 n w = (Inr r, w') \<and>
     writePercentageDifference r =
       js_times (js_divide (writeDifference r) (min (asyncWriteTime r) (mmkvWriteTime r))) 100 \<and>
     readPercentageDifference r =
       js_times (js_divide (readDifference r) (min (asyncReadTime r) (mmkvReadTime r))) 100"
  by (simp add: runBenchmark_part_000_eq Let_def min_def)

text \<open>
  C10. In the version of \<^verbatim>\<open>src/App.tsx\<close> the field \<open>size'\<close> of the result is the size
  passed in, and each average is the sum of the write time and the read time of its
  backend, divided by 2.
\<close>

theorem size_and_averages:
  "\<exists>r w'. runBenchmark n w = (Inr r, w') \<and>
     size' r = n \<and>
     asyncAvg r = (asyncWriteTime r + asyncReadTime r) / 2 \<and>
     mmkvAvg r = (mmkvWriteTime r + mmkvReadTime r) / 2"
  by (simp add: runBenchmark_eq Let_def)

end
